theory Spec2Isabelle
  imports Complex_Main "HOL-Library.AList" "HOL-Library.Sublist"
begin

section \<open>Exceptions and the decorators of utils/decorators.py\<close>

text \<open>
  The Python exceptions the campaign code raises and catches. Every constructor but
  \<open>KeyboardInterrupt\<close> is a subclass of Python's \<open>Exception\<close>; \<open>KeyboardInterrupt\<close>
  derives from \<open>BaseException\<close> only, so an \<open>except Exception\<close> clause lets it pass.
\<close>

datatype exn =
    StaleElementReferenceException
  | NoSuchElementException
  | ElementNotInteractableException
  | TimeoutException
  | NoSuchWindowException
  | ValueError
  | OtherException
  | KeyboardInterrupt

fun is_Exception :: "exn \<Rightarrow> bool" where
  "is_Exception KeyboardInterrupt = False"
| "is_Exception _ = True"

text \<open>
  An operation runs on a state and either raises (\<open>Inl\<close>) or returns a value (\<open>Inr\<close>);
  the state it leaves is returned in both cases.
\<close>

type_synonym ('s, 'a) operation = "'s \<Rightarrow> (exn + 'a) \<times> 's"

text \<open>\<open>time.sleep(d)\<close> raises \<open>ValueError\<close> for a negative \<open>d\<close> and has no other effect here.\<close>

definition time_sleep :: "int \<Rightarrow> exn option" where
  "time_sleep d = (if d < 0 then Some ValueError else None)"

text \<open>
  \<open>retry(max_attempts, delay_seconds)(func)\<close>: the \<open>while attempts < max_attempts\<close> loop of
  the wrapper, started at \<open>attempts = 0\<close>. The result \<open>Inr None\<close> is Python's \<open>None\<close>, returned
  when the loop ends without entering \<open>return\<close> or \<open>raise\<close>.
\<close>

function retry_loop ::
  "int \<Rightarrow> int \<Rightarrow> ('s, 'a) operation \<Rightarrow> int \<Rightarrow> 's \<Rightarrow> (exn + 'a option) \<times> 's" where
  "retry_loop max_attempts delay_seconds func attempts s =
     (if attempts < max_attempts then
        (case func s of
           (Inr v, s') \<Rightarrow> (Inr (Some v), s')
         | (Inl e, s') \<Rightarrow>
             if \<not> is_Exception e then (Inl e, s')
             else if attempts + 1 \<ge> max_attempts then (Inl e, s')
             else (case time_sleep delay_seconds of
                     Some e' \<Rightarrow> (Inl e', s')
                   | None \<Rightarrow> retry_loop max_attempts delay_seconds func (attempts + 1) s'))
      else (Inr None, s))"
  by pat_completeness auto
termination
  by (relation "measure (\<lambda>(m, d, f, a, s). nat (m - a))") auto

declare retry_loop.simps [simp del]

definition retry :: "int \<Rightarrow> int \<Rightarrow> ('s, 'a) operation \<Rightarrow> 's \<Rightarrow> (exn + 'a option) \<times> 's" where
  "retry max_attempts delay_seconds func s = retry_loop max_attempts delay_seconds func 0 s"

text \<open>
  \<open>safe_operation(func)\<close>: an \<open>Exception\<close> is logged and turned into \<open>None\<close>; anything else
  propagates. \<open>safe_result\<close> is the wrapper on what the call returns or raises,
  \<open>safe_operation\<close> the same beside the state the call leaves.
\<close>

definition safe_result :: "exn + 'a \<Rightarrow> exn + 'a option" where
  "safe_result r =
     (case r of
        Inr v \<Rightarrow> Inr (Some v)
      | Inl e \<Rightarrow> if is_Exception e then Inr None else Inl e)"

definition safe_operation :: "(exn + 'a) \<times> 's \<Rightarrow> (exn + 'a option) \<times> 's" where
  "safe_operation r = (safe_result (fst r), snd r)"

subsection \<open>Counting invocations\<close>

text \<open>
  To speak about how often the wrapper calls the operation, the operation is run beside a
  counter that every invocation increments. \<open>run_n f n s\<close> is the state after \<open>n\<close>
  invocations of \<open>f\<close> from \<open>s\<close>, and \<open>attempt f s i\<close> is what invocation number \<open>i + 1\<close>
  returns or raises.
\<close>

definition counted :: "('s, 'a) operation \<Rightarrow> ('s \<times> nat, 'a) operation" where
  "counted f = (\<lambda>(s, n). case f s of (r, s') \<Rightarrow> (r, (s', Suc n)))"

fun run_n :: "('s, 'a) operation \<Rightarrow> nat \<Rightarrow> 's \<Rightarrow> 's" where
  "run_n f 0 s = s"
| "run_n f (Suc n) s = run_n f n (snd (f s))"

definition attempt :: "('s, 'a) operation \<Rightarrow> 's \<Rightarrow> nat \<Rightarrow> exn + 'a" where
  "attempt f s i = fst (f (run_n f i s))"

fun fails :: "exn + 'a \<Rightarrow> bool" where
  "fails (Inl e) = is_Exception e"
| "fails (Inr v) = False"

text \<open>
  Two operations on a call counter, used to run the wrapper on concrete inputs: \<open>flaky\<close>
  raises a stale-element error on its first two invocations and returns \<open>True\<close> from the
  third on; \<open>broken\<close> times out on every invocation.
\<close>

definition flaky :: "(nat, bool) operation" where
  "flaky s = (if s < 2 then Inl StaleElementReferenceException else Inr True, Suc s)"

definition broken :: "(nat, bool) operation" where
  "broken s = (Inl TimeoutException, Suc s)"

subsection \<open>One step of the retry loop\<close>

lemma retry_loop_stop: "\<not> a < N \<Longrightarrow> retry_loop N d g a s = (Inr None, s)"
  by (simp add: retry_loop.simps)

lemma retry_loop_return:
  "a < N \<Longrightarrow> g s = (Inr v, s') \<Longrightarrow> retry_loop N d g a s = (Inr (Some v), s')"
  by (simp add: retry_loop.simps)

lemma retry_loop_raise:
  "a < N \<Longrightarrow> g s = (Inl e, s') \<Longrightarrow> \<not> is_Exception e \<or> N \<le> a + 1 \<Longrightarrow>
   retry_loop N d g a s = (Inl e, s')"
  by (auto simp add: retry_loop.simps)

lemma retry_loop_sleep_fails:
  "a < N \<Longrightarrow> g s = (Inl e, s') \<Longrightarrow> is_Exception e \<Longrightarrow> \<not> N \<le> a + 1 \<Longrightarrow> d < 0 \<Longrightarrow>
   retry_loop N d g a s = (Inl ValueError, s')"
  by (simp add: retry_loop.simps time_sleep_def)

lemma retry_loop_again:
  "a < N \<Longrightarrow> g s = (Inl e, s') \<Longrightarrow> is_Exception e \<Longrightarrow> \<not> N \<le> a + 1 \<Longrightarrow> 0 \<le> d \<Longrightarrow>
   retry_loop N d g a s = retry_loop N d g (a + 1) s'"
  by (simp add: retry_loop.simps time_sleep_def)

lemma counted_apply: "f s = (r, s') \<Longrightarrow> counted f (s, n) = (r, (s', Suc n))"
  by (simp add: counted_def)

lemma retry_loop_count:
  "snd (snd (retry_loop N d (counted f) a (s, n))) \<le> n + nat (N - a)"
proof (induction "nat (N - a)" arbitrary: a s n)
  case 0
  then have "\<not> a < N" by simp
  then show ?case by (simp add: retry_loop_stop)
next
  case (Suc m)
  then have lt: "a < N" and m: "m = nat (N - (a + 1))" by auto
  obtain r s' where fs: "f s = (r, s')" by (cases "f s")
  have step: "snd (snd (retry_loop N d (counted f) (a + 1) (s', Suc n))) \<le> Suc n + nat (N - (a + 1))"
    by (rule Suc.hyps(1)[OF m])
  note cs = counted_apply[of f s r s' n, OF fs]
  show ?case
  proof (cases r)
    case (Inr v)
    with lt cs show ?thesis by (simp add: retry_loop_return)
  next
    case (Inl e)
    show ?thesis
    proof (cases "\<not> is_Exception e \<or> N \<le> a + 1")
      case True
      with lt cs Inl show ?thesis by (simp add: retry_loop_raise)
    next
      case False
      show ?thesis
      proof (cases "d < 0")
        case True
        with False lt cs Inl have "retry_loop N d (counted f) a (s, n) = (Inl ValueError, (s', Suc n))"
          by (intro retry_loop_sleep_fails) auto
        with lt show ?thesis by simp
      next
        case d: False
        with False lt cs Inl have "retry_loop N d (counted f) a (s, n)
           = retry_loop N d (counted f) (a + 1) (s', Suc n)"
          by (intro retry_loop_again) auto
        with step lt show ?thesis by simp
      qed
    qed
  qed
qed

lemma retry_loop_success:
  "0 \<le> d \<Longrightarrow> a + int k < N \<Longrightarrow> (\<forall>i<k. fails (attempt f s i)) \<Longrightarrow> attempt f s k = Inr v \<Longrightarrow>
   retry_loop N d (counted f) a (s, n) = (Inr (Some v), (run_n f (Suc k) s, n + Suc k))"
proof (induction k arbitrary: a s n)
  case 0
  obtain r s' where fs: "f s = (r, s')" by (cases "f s")
  with 0 have "r = Inr v" by (simp add: attempt_def)
  with counted_apply[of f s r s' n, OF fs] 0 fs show ?case by (simp add: retry_loop_return)
next
  case (Suc k)
  obtain r s' where fs: "f s = (r, s')" by (cases "f s")
  from Suc.prems(3) have "fails (attempt f s 0)" by blast
  with fs obtain e where r: "r = Inl e" and e: "is_Exception e"
    by (cases r) (auto simp: attempt_def)
  have shift: "\<And>i. attempt f s (Suc i) = attempt f s' i"
    using fs by (simp add: attempt_def)
  have "retry_loop N d (counted f) (a + 1) (s', Suc n)
        = (Inr (Some v), (run_n f (Suc k) s', Suc n + Suc k))"
  proof (rule Suc.IH)
    show "0 \<le> d" by fact
    show "a + 1 + int k < N" using Suc.prems(2) by simp
    show "\<forall>i<k. fails (attempt f s' i)" using Suc.prems(3) shift by (metis Suc_less_eq)
    show "attempt f s' k = Inr v" using Suc.prems(4) shift by simp
  qed
  moreover have "a < N" "\<not> a + 1 \<ge> N" using Suc.prems(2) by auto
  ultimately show ?case
    using counted_apply[of f s r s' n, OF fs] r e Suc.prems(1) fs
      retry_loop_again[of a N "counted f" "(s, n)" e "(s', Suc n)" d] by simp
qed

lemma retry_loop_exhaust:
  "0 \<le> d \<Longrightarrow> a + int (Suc k) = N \<Longrightarrow> (\<forall>i<Suc k. fails (attempt f s i)) \<Longrightarrow>
   \<exists>e. attempt f s k = Inl e \<and>
       retry_loop N d (counted f) a (s, n) = (Inl e, (run_n f (Suc k) s, n + Suc k))"
proof (induction k arbitrary: a s n)
  case 0
  obtain r s' where fs: "f s = (r, s')" by (cases "f s")
  from 0(3) have "fails (attempt f s 0)" by blast
  with fs obtain e where r: "r = Inl e" and e: "is_Exception e"
    by (cases r) (auto simp: attempt_def)
  with counted_apply[of f s r s' n, OF fs] 0 fs show ?case by (simp add: retry_loop_raise attempt_def)
next
  case (Suc k)
  obtain r s' where fs: "f s = (r, s')" by (cases "f s")
  from Suc.prems(3) have "fails (attempt f s 0)" by blast
  with fs obtain e where r: "r = Inl e" and e: "is_Exception e"
    by (cases r) (auto simp: attempt_def)
  have shift: "\<And>i. attempt f s (Suc i) = attempt f s' i"
    using fs by (simp add: attempt_def)
  have "\<exists>e. attempt f s' k = Inl e \<and>
       retry_loop N d (counted f) (a + 1) (s', Suc n) = (Inl e, (run_n f (Suc k) s', Suc n + Suc k))"
  proof (rule Suc.IH)
    show "0 \<le> d" by fact
    show "a + 1 + int (Suc k) = N" using Suc.prems(2) by simp
    show "\<forall>i<Suc k. fails (attempt f s' i)" using Suc.prems(3) shift by (metis Suc_less_eq)
  qed
  moreover have "a < N" "\<not> a + 1 \<ge> N" using Suc.prems(2) by auto
  ultimately show ?case
    using counted_apply[of f s r s' n, OF fs] r e Suc.prems(1) shift fs
      retry_loop_again[of a N "counted f" "(s, n)" e "(s', Suc n)" d] by simp
qed

subsection \<open>The contract of the retry wrapper\<close>

text \<open>
  Claim C3. For every operation \<open>f\<close> and every \<open>N \<ge> 1\<close>, the wrapper built with
  \<open>max_attempts = N\<close> invokes \<open>f\<close> at most \<open>N\<close> times. With a delay that \<open>time.sleep\<close>
  accepts (\<open>0 \<le> d\<close>): if the first \<open>k - 1\<close> invocations raise an \<open>Exception\<close> and invocation
  \<open>k \<le> N\<close> returns \<open>v\<close>, the wrapper returns \<open>v\<close> after exactly \<open>k\<close> invocations and raises
  nothing; if all \<open>N\<close> invocations raise an \<open>Exception\<close>, the wrapper raises the exception of
  invocation \<open>N\<close> after exactly \<open>N\<close> invocations.
\<close>

theorem retry_contract:
  assumes "1 \<le> N"
  shows "snd (snd (retry N d (counted f) (s, 0))) \<le> nat N
     \<and> (0 \<le> d \<longrightarrow>
          (\<forall>k v. 1 \<le> k \<and> int k \<le> N \<and> (\<forall>i<k - 1. fails (attempt f s i)) \<and> attempt f s (k - 1) = Inr v
             \<longrightarrow> retry N d (counted f) (s, 0) = (Inr (Some v), (run_n f k s, k)))
        \<and> ((\<forall>i<nat N. fails (attempt f s i))
             \<longrightarrow> (\<exists>e. attempt f s (nat N - 1) = Inl e
                    \<and> retry N d (counted f) (s, 0) = (Inl e, (run_n f (nat N) s, nat N)))))"
proof (intro conjI impI allI)
  show "snd (snd (retry N d (counted f) (s, 0))) \<le> nat N"
    using retry_loop_count[of N d f 0 s 0] by (simp add: retry_def)
next
  fix k v
  assume d: "0 \<le> d"
    and k: "1 \<le> k \<and> int k \<le> N \<and> (\<forall>i<k - 1. fails (attempt f s i)) \<and> attempt f s (k - 1) = Inr v"
  then obtain j where j: "k = Suc j" by (cases k) auto
  have "retry_loop N d (counted f) 0 (s, 0) = (Inr (Some v), (run_n f (Suc j) s, 0 + Suc j))"
  proof (rule retry_loop_success)
    show "0 \<le> d" by fact
    show "0 + int j < N" using k j by simp
    show "\<forall>i<j. fails (attempt f s i)" using k j by simp
    show "attempt f s j = Inr v" using k j by simp
  qed
  then show "retry N d (counted f) (s, 0) = (Inr (Some v), (run_n f k s, k))"
    using j by (simp add: retry_def)
next
  assume d: "0 \<le> d" and all: "\<forall>i<nat N. fails (attempt f s i)"
  from assms obtain j where j: "nat N = Suc j" by (cases "nat N") auto
  have "\<exists>e. attempt f s j = Inl e \<and>
       retry_loop N d (counted f) 0 (s, 0) = (Inl e, (run_n f (Suc j) s, 0 + Suc j))"
  proof (rule retry_loop_exhaust)
    show "0 \<le> d" by fact
    show "0 + int (Suc j) = N" using j assms by linarith
    show "\<forall>i<Suc j. fails (attempt f s i)" using all j by simp
  qed
  then show "\<exists>e. attempt f s (nat N - 1) = Inl e
        \<and> retry N d (counted f) (s, 0) = (Inl e, (run_n f (nat N) s, nat N))"
    using j by (simp add: retry_def)
qed

lemma flaky_attempts:
  "attempt flaky 0 0 = Inl StaleElementReferenceException"
  "attempt flaky 0 (Suc 0) = Inl StaleElementReferenceException"
  "attempt flaky 0 2 = Inr True"
  "run_n flaky 3 0 = 3"
  by (simp_all add: attempt_def flaky_def numeral_2_eq_2 numeral_3_eq_3)

lemma broken_attempts:
  "attempt broken 0 i = Inl TimeoutException"
  "run_n broken 3 0 = 3"
  by (simp_all add: attempt_def broken_def numeral_3_eq_3)

theorem retry_contract_witness:
  "retry 3 1 (counted flaky) (0, 0) = (Inr (Some True), (3, 3))
 \<and> retry 3 1 (counted broken) (0, 0) = (Inl TimeoutException, (3, 3))
 \<and> snd (snd (retry 3 1 (counted broken) (0, 0))) \<le> nat 3"
proof -
  have three: "(1::int) \<le> 3" by simp
  have prefix: "\<forall>i<(3::nat) - 1. fails (attempt flaky 0 i)"
    by (simp add: less_Suc_eq flaky_attempts numeral_2_eq_2 numeral_3_eq_3)
  have a: "retry 3 1 (counted flaky) (0, 0) = (Inr (Some True), (run_n flaky 3 0, 3))"
    using retry_contract[OF three, of 1 flaky 0] prefix flaky_attempts(3) by simp
  have b: "\<exists>e. attempt broken 0 (nat 3 - 1) = Inl e
        \<and> retry 3 1 (counted broken) (0, 0) = (Inl e, (run_n broken (nat 3) 0, nat 3))"
    using retry_contract[OF three, of 1 broken 0] by (simp add: broken_attempts)
  have c: "snd (snd (retry 3 1 (counted broken) (0, 0))) \<le> nat 3"
    using retry_contract[OF three, of 1 broken 0] by blast
  from a b c show ?thesis by (simp add: flaky_attempts broken_attempts)
qed

text \<open>
  Claim C10. Built with \<open>max_attempts \<le> 0\<close>, the wrapper returns \<open>None\<close>, raises nothing and
  never invokes the operation: the state and the invocation counter are what they were.
\<close>

theorem retry_nonpositive_max_attempts:
  "N \<le> 0 \<Longrightarrow> retry N d (counted f) (s, n) = (Inr None, (s, n))"
  by (simp add: retry_def retry_loop_stop)

theorem retry_nonpositive_max_attempts_witness:
  "retry 0 1 (counted broken) (0, 0) = (Inr None, (0, 0))
 \<and> retry (- 3) 1 (counted flaky) (0, 0) = (Inr None, (0, 0))"
  using retry_nonpositive_max_attempts[of 0 1 broken 0 0]
    retry_nonpositive_max_attempts[of "- 3" 1 flaky 0 0] by simp

section \<open>ThrottleClock: utils/helpers.py\<close>

text \<open>
  \<open>get_adjusted_sleep_range(min_max, call_count)\<close>. Python computes the bounds in floating
  point; here they are real numbers, so the arithmetic is exact. \<open>reduction_factor\<close> is the
  local variable of that name.
\<close>

definition reduction_factor :: "int \<Rightarrow> real" where
  "reduction_factor call_count = min (7 / 10) (real_of_int (call_count - 50) / 200)"

definition get_adjusted_sleep_range :: "real \<times> real \<Rightarrow> int \<Rightarrow> real \<times> real" where
  "get_adjusted_sleep_range min_max call_count =
     (if call_count > 50 then
        let adjusted_min = fst min_max * (1 - reduction_factor call_count);
            adjusted_max = snd min_max * (1 - reduction_factor call_count)
        in (adjusted_min, adjusted_max)
      else min_max)"

lemma reduction_factor_bounds: "50 < c \<Longrightarrow> 0 < reduction_factor c \<and> reduction_factor c \<le> 7 / 10"
  by (simp add: reduction_factor_def)

lemma reduction_factor_mono: "c \<le> c' \<Longrightarrow> reduction_factor c \<le> reduction_factor c'"
  by (simp add: reduction_factor_def min_def divide_right_mono) 

lemma reduction_factor_cap: "(reduction_factor c = 7 / 10) = (190 \<le> c)"
  by (auto simp add: reduction_factor_def min_def)

lemma scale_ge: "0 \<le> x \<Longrightarrow> r \<le> 7 / 10 \<Longrightarrow> 3 / 10 * x \<le> x * (1 - r)" for x r :: real
proof -
  assume x: "0 \<le> x" and r: "r \<le> 7 / 10"
  then have "3 / 10 \<le> 1 - r" by simp
  then have "x * (3 / 10) \<le> x * (1 - r)" using x by (rule mult_left_mono)
  then show ?thesis by (simp add: mult.commute)
qed

lemma reduction_factor_ramp:
  "50 \<le> c \<Longrightarrow> c \<le> 190 \<Longrightarrow> reduction_factor c = real_of_int (c - 50) / 200"
  by (simp add: reduction_factor_def min_def)

lemma reduction_factor_strict:
  "50 \<le> c1 \<Longrightarrow> c1 < c2 \<Longrightarrow> c2 \<le> 190 \<Longrightarrow> reduction_factor c1 < reduction_factor c2"
  by (simp add: reduction_factor_ramp divide_strict_right_mono)

lemma scale_abs_ge: "r \<le> 7 / 10 \<Longrightarrow> 3 / 10 * \<bar>x\<bar> \<le> \<bar>x * (1 - r)\<bar>" for x r :: real
proof -
  assume r: "r \<le> 7 / 10"
  then have "\<bar>x * (1 - r)\<bar> = \<bar>x\<bar> * (1 - r)" by (simp add: abs_mult)
  with scale_ge[of "\<bar>x\<bar>" r] r show ?thesis by simp
qed

text \<open>
  Claim C7, as stated, fails on the ramp. The claim lets the factor grow from 0 to 0.7 as the
  call count grows from 50 to 250. The factor has reached 0.7 at 190 calls already and no
  longer grows from there to 250 calls: the ranges adjusted at 190 and at 250 calls are the
  same.
\<close>

theorem throttle_ramp_ends_at_190:
  "reduction_factor 190 = 7 / 10
 \<and> reduction_factor 250 = 7 / 10
 \<and> \<not> reduction_factor 190 < reduction_factor 250
 \<and> get_adjusted_sleep_range (1, 3) 190 = (3 / 10, 9 / 10)
 \<and> get_adjusted_sleep_range (1, 3) 250 = (3 / 10, 9 / 10)"
  by (simp add: reduction_factor_def get_adjusted_sleep_range_def)

text \<open>
  Claim C7, amended. Up to 50 calls the range is returned as it is. Beyond 50 calls both
  bounds are multiplied by \<open>1 - reduction_factor c\<close>, where the factor is positive and at most
  0.7. The factor is \<open>(c - 50) / 200\<close> from 50 to 190 calls, so it grows strictly from 0 to 0.7
  as the call count grows from 50 to 190, and it is 0.7 from 190 calls on (at 250 calls too);
  over all call counts it never decreases. So every adjusted bound is at least 30 percent of
  its original in magnitude, and a non-negative bound never drops below 30 percent of its
  original value.
\<close>

theorem throttle_range_contract:
  "(c \<le> 50 \<longrightarrow> get_adjusted_sleep_range (lo, hi) c = (lo, hi))
 \<and> (50 < c \<longrightarrow>
       get_adjusted_sleep_range (lo, hi) c
         = (lo * (1 - reduction_factor c), hi * (1 - reduction_factor c))
     \<and> 0 < reduction_factor c \<and> reduction_factor c \<le> 7 / 10)
 \<and> reduction_factor 50 = 0 \<and> reduction_factor 190 = 7 / 10 \<and> reduction_factor 250 = 7 / 10
 \<and> (50 \<le> c \<and> c \<le> 190 \<longrightarrow> reduction_factor c = real_of_int (c - 50) / 200)
 \<and> (190 \<le> c \<longrightarrow> reduction_factor c = 7 / 10)
 \<and> (\<forall>c1 c2. 50 \<le> c1 \<and> c1 < c2 \<and> c2 \<le> 190 \<longrightarrow> reduction_factor c1 < reduction_factor c2)
 \<and> (\<forall>c1 c2. c1 \<le> c2 \<longrightarrow> reduction_factor c1 \<le> reduction_factor c2)
 \<and> (0 \<le> lo \<longrightarrow> 3 / 10 * lo \<le> fst (get_adjusted_sleep_range (lo, hi) c))
 \<and> (0 \<le> hi \<longrightarrow> 3 / 10 * hi \<le> snd (get_adjusted_sleep_range (lo, hi) c))
 \<and> 3 / 10 * \<bar>lo\<bar> \<le> \<bar>fst (get_adjusted_sleep_range (lo, hi) c)\<bar>
 \<and> 3 / 10 * \<bar>hi\<bar> \<le> \<bar>snd (get_adjusted_sleep_range (lo, hi) c)\<bar>"
proof (intro conjI impI allI)
  show "reduction_factor 50 = 0" "reduction_factor 190 = 7 / 10" "reduction_factor 250 = 7 / 10"
    by (simp_all add: reduction_factor_def)
next
  assume "0 \<le> lo"
  then show "3 / 10 * lo \<le> fst (get_adjusted_sleep_range (lo, hi) c)"
    using scale_ge[of lo "reduction_factor c"] reduction_factor_bounds[of c]
    by (simp add: get_adjusted_sleep_range_def)
next
  assume "0 \<le> hi"
  then show "3 / 10 * hi \<le> snd (get_adjusted_sleep_range (lo, hi) c)"
    using scale_ge[of hi "reduction_factor c"] reduction_factor_bounds[of c]
    by (simp add: get_adjusted_sleep_range_def)
next
  show "3 / 10 * \<bar>lo\<bar> \<le> \<bar>fst (get_adjusted_sleep_range (lo, hi) c)\<bar>"
    using scale_abs_ge[of "reduction_factor c" lo] reduction_factor_bounds[of c]
    by (simp add: get_adjusted_sleep_range_def)
next
  show "3 / 10 * \<bar>hi\<bar> \<le> \<bar>snd (get_adjusted_sleep_range (lo, hi) c)\<bar>"
    using scale_abs_ge[of "reduction_factor c" hi] reduction_factor_bounds[of c]
    by (simp add: get_adjusted_sleep_range_def)
next
  assume "c \<le> 50"
  then show "get_adjusted_sleep_range (lo, hi) c = (lo, hi)"
    by (simp add: get_adjusted_sleep_range_def)
next
  assume "50 < c"
  then show "get_adjusted_sleep_range (lo, hi) c
         = (lo * (1 - reduction_factor c), hi * (1 - reduction_factor c))"
    by (simp add: get_adjusted_sleep_range_def)
next
  assume "50 < c"
  then show "0 < reduction_factor c" "reduction_factor c \<le> 7 / 10"
    using reduction_factor_bounds[of c] by blast+
next
  assume "50 \<le> c \<and> c \<le> 190"
  then show "reduction_factor c = real_of_int (c - 50) / 200"
    by (simp add: reduction_factor_ramp)
next
  assume "190 \<le> c"
  then show "reduction_factor c = 7 / 10"
    using reduction_factor_cap[of c] by blast
next
  fix c1 c2 :: int
  assume "50 \<le> c1 \<and> c1 < c2 \<and> c2 \<le> 190"
  then show "reduction_factor c1 < reduction_factor c2"
    by (simp add: reduction_factor_strict)
next
  fix c1 c2 :: int
  assume "c1 \<le> c2"
  then show "reduction_factor c1 \<le> reduction_factor c2"
    by (rule reduction_factor_mono)
qed

theorem throttle_range_contract_witness:
  "get_adjusted_sleep_range (1, 3) 50 = (1, 3)
 \<and> get_adjusted_sleep_range (1, 3) 100 = (3 / 4, 9 / 4)
 \<and> get_adjusted_sleep_range (1, 3) 1000 = (3 / 10, 9 / 10)
 \<and> reduction_factor 100 = 1 / 4
 \<and> reduction_factor 100 < reduction_factor 190
 \<and> reduction_factor 190 \<le> reduction_factor 250
 \<and> reduction_factor 1000 = 7 / 10
 \<and> 3 / 10 * 1 \<le> fst (get_adjusted_sleep_range (1, 3) 100)
 \<and> 3 / 10 * 3 \<le> snd (get_adjusted_sleep_range (1, 3) 100)"
proof -
  note at_50 = throttle_range_contract[of 50 1 3]
  note at_100 = throttle_range_contract[of 100 1 3]
  note at_1000 = throttle_range_contract[of 1000 1 3]
  have r100: "reduction_factor 100 = 1 / 4" using at_100 by simp
  have r1000: "reduction_factor 1000 = 7 / 10" using at_1000 by simp
  have strict: "reduction_factor 100 < reduction_factor 190"
  proof -
    have "(50::int) \<le> 100 \<and> (100::int) < 190 \<and> (190::int) \<le> 190" by simp
    with at_100 show ?thesis by blast
  qed
  have weak: "reduction_factor 190 \<le> reduction_factor 250"
  proof -
    have "(190::int) \<le> 250" by simp
    with at_100 show ?thesis by blast
  qed
  have "get_adjusted_sleep_range (1, 3) 50 = (1, 3)" using at_50 by simp
  moreover have "get_adjusted_sleep_range (1, 3) 100 = (3 / 4, 9 / 4)"
    using at_100 r100 by simp
  moreover have "get_adjusted_sleep_range (1, 3) 1000 = (3 / 10, 9 / 10)"
    using at_1000 r1000 by simp
  moreover have "3 / 10 * 1 \<le> fst (get_adjusted_sleep_range (1, 3) 100)"
    "3 / 10 * 3 \<le> snd (get_adjusted_sleep_range (1, 3) 100)"
    using at_100 by simp_all
  ultimately show ?thesis using r100 r1000 strict weak by simp
qed

section \<open>FieldResolver: features/jobs.py\<close>

subsection \<open>Strings\<close>

text \<open>
  Strings are lists of 8-bit characters, so the model covers ASCII labels. \<open>lower_char\<close> is
  \<open>str.lower\<close> on one character: an upper-case letter (codes 65 to 90) gets bit 5 set, which
  adds 32; every other character is kept.
\<close>

definition lower_char :: "char \<Rightarrow> char" where
  "lower_char c =
     (if (65::nat) \<le> of_char c \<and> of_char c \<le> (90::nat)
      then (case c of Char b0 b1 b2 b3 b4 b5 b6 b7 \<Rightarrow> Char b0 b1 b2 b3 b4 True b6 b7)
      else c)"

definition lower :: "string \<Rightarrow> string" where
  "lower s = map lower_char s"

text \<open>\<open>contains pat s\<close> is Python's \<open>pat in s\<close> on strings.\<close>

fun contains :: "string \<Rightarrow> string \<Rightarrow> bool" where
  "contains pat [] = (pat = [])"
| "contains pat (c # cs) = (prefix pat (c # cs) \<or> contains pat cs)"

definition replace_char :: "char \<Rightarrow> char \<Rightarrow> string \<Rightarrow> string" where
  "replace_char old new s = map (\<lambda>c. if c = old then new else c) s"

text \<open>\<open>str.strip()\<close>: the ASCII whitespace characters are removed from both ends.\<close>

definition is_space :: "char \<Rightarrow> bool" where
  "is_space c = (let n = (of_char c :: nat) in (9 \<le> n \<and> n \<le> 13) \<or> (28 \<le> n \<and> n \<le> 32))"

definition strip :: "string \<Rightarrow> string" where
  "strip s = rev (dropWhile is_space (rev (dropWhile is_space s)))"

text \<open>The character class \<open>[a-z0-9_]\<close> of the regular expression.\<close>

definition is_key_char :: "char \<Rightarrow> bool" where
  "is_key_char c =
     (let n = (of_char c :: nat) in (97 \<le> n \<and> n \<le> 122) \<or> (48 \<le> n \<and> n \<le> 57) \<or> n = 95)"

subsection \<open>The profile record and the rule table of text inputs\<close>

text \<open>
  A Python dict keeps its keys in insertion order and the fallback loop walks them in that
  order, so the profile is an association list. \<open>has_value p k\<close> is the truth value of
  \<open>profile_data.get(k)\<close>: the key is present and its string is not empty.
\<close>

type_synonym profile = "(string \<times> string) list"

definition has_value :: "profile \<Rightarrow> string \<Rightarrow> bool" where
  "has_value p k = (case map_of p k of None \<Rightarrow> False | Some v \<Rightarrow> v \<noteq> [])"

definition field_mappings :: "(string \<times> string) list" where
  "field_mappings =
     [(''name'', ''full_name''),
      (''first name'', ''full_name''),
      (''last name'', ''full_name''),
      (''phone'', ''phone''),
      (''email'', ''email''),
      (''address'', ''location''),
      (''city'', ''location''),
      (''years of experience'', ''years_of_experience''),
      (''linkedin'', ''linkedin_profile''),
      (''website'', ''linkedin_profile''),
      (''salary'', ''expected_salary''),
      (''notice period'', ''notice_period''),
      (''university'', ''school''),
      (''college'', ''school''),
      (''institution'', ''school''),
      (''gpa'', ''gpa''),
      (''graduation date'', ''graduation_date''),
      (''company'', ''current_company''),
      (''job title'', ''current_job_title''),
      (''years'', ''total_years_experience'')]"

text \<open>The test of one rule: \<open>label_pattern in field_label and profile_data.get(profile_key)\<close>.\<close>

definition rule_applies :: "string \<times> string \<Rightarrow> string \<Rightarrow> profile \<Rightarrow> bool" where
  "rule_applies rule field_label p = (contains (fst rule) field_label \<and> has_value p (snd rule))"

text \<open>The first loop: over the rules in order, leaving at the first rule that applies.\<close>

fun match_mappings :: "(string \<times> string) list \<Rightarrow> string \<Rightarrow> profile \<Rightarrow> string option" where
  "match_mappings [] field_label p = None"
| "match_mappings (rule # rules) field_label p =
     (if rule_applies rule field_label p then Some (snd rule)
      else match_mappings rules field_label p)"

text \<open>
  The second loop: over the keys of the profile in order, a key matching when it, with
  underscores replaced by spaces, occurs in the label and has a value.
\<close>

fun match_profile_keys :: "profile \<Rightarrow> string \<Rightarrow> profile \<Rightarrow> string option" where
  "match_profile_keys [] field_label p = None"
| "match_profile_keys (entry # entries) field_label p =
     (if contains (replace_char (CHR ''_'') (CHR '' '') (fst entry)) field_label \<and> has_value p (fst entry)
      then Some (fst entry)
      else match_profile_keys entries field_label p)"

text \<open>
  \<open>matched_key\<close> after both loops of \<open>_fill_form_inputs\<close>, for an observed label. The second
  loop runs when the first left \<open>matched_key\<close> at \<open>None\<close> (no rule of the table has an empty
  key, so \<open>not matched_key\<close> is that test).
\<close>

definition resolve_input :: "string \<Rightarrow> profile \<Rightarrow> string option" where
  "resolve_input label p =
     (let field_label = lower label in
      case match_mappings field_mappings field_label p of
        Some k \<Rightarrow> Some k
      | None \<Rightarrow> match_profile_keys p field_label p)"

text \<open>
  What \<open>_fill_form_inputs\<close> does with one input field: nothing when the field has no label,
  typing the value of the matched key, or handing the lower-cased label to
  \<open>_add_missing_field_to_config\<close>.
\<close>

datatype field_action = Skip | SendKeys string string | AddMissing string

definition fill_input :: "string option \<Rightarrow> profile \<Rightarrow> field_action" where
  "fill_input label p =
     (case label of
        None \<Rightarrow> Skip
      | Some l \<Rightarrow>
          if l = [] then Skip
          else (case resolve_input l p of
                  Some k \<Rightarrow>
                    if k \<noteq> [] \<and> has_value p k then SendKeys k (the (map_of p k))
                    else AddMissing (lower l)
                | None \<Rightarrow> AddMissing (lower l)))"

subsection \<open>Resolution returns the first applicable rule\<close>

lemma contains_sublist: "contains pat s = sublist pat s"
  by (induction s) (auto simp: sublist_Cons_right)

lemma match_mappings_first:
  "i < length rules \<Longrightarrow> rule_applies (rules ! i) l p \<Longrightarrow>
   (\<forall>j<i. \<not> rule_applies (rules ! j) l p) \<Longrightarrow>
   match_mappings rules l p = Some (snd (rules ! i))"
proof (induction rules arbitrary: i)
  case Nil
  then show ?case by simp
next
  case (Cons rule rules)
  show ?case
  proof (cases i)
    case 0
    with Cons.prems show ?thesis by simp
  next
    case (Suc i')
    from Cons.prems(3) Suc have head: "\<not> rule_applies rule l p" by auto
    have "match_mappings rules l p = Some (snd (rules ! i'))"
    proof (rule Cons.IH)
      show "i' < length rules" using Cons.prems(1) Suc by simp
      show "rule_applies (rules ! i') l p" using Cons.prems(2) Suc by simp
      show "\<forall>j<i'. \<not> rule_applies (rules ! j) l p"
        using Cons.prems(3) Suc by auto
    qed
    with head Suc show ?thesis by simp
  qed
qed

lemma lower_years: "lower ''Years of Experience'' = ''years of experience''"
  by (simp add: lower_def lower_char_def)

lemma match_years:
  "has_value p ''years_of_experience'' \<Longrightarrow>
   match_mappings field_mappings ''years of experience'' p = Some ''years_of_experience''"
  by (simp add: field_mappings_def rule_applies_def)

text \<open>
  Claim C4. The first rule of the table, in order, whose pattern occurs in the lower-cased
  label and whose profile key has a non-empty value decides the resolution; and the label
  "Years of Experience" resolves to \<open>years_of_experience\<close> whenever that key has a non-empty
  value.
\<close>

theorem resolve_input_first_rule:
  "(\<forall>i. i < length field_mappings
        \<and> contains (fst (field_mappings ! i)) (lower label)
        \<and> has_value p (snd (field_mappings ! i))
        \<and> (\<forall>j<i. \<not> (contains (fst (field_mappings ! j)) (lower label)
                      \<and> has_value p (snd (field_mappings ! j))))
        \<longrightarrow> resolve_input label p = Some (snd (field_mappings ! i)))
 \<and> (has_value p ''years_of_experience''
        \<longrightarrow> resolve_input ''Years of Experience'' p = Some ''years_of_experience'')"
proof (intro conjI allI impI)
  fix i
  assume a: "i < length field_mappings
        \<and> contains (fst (field_mappings ! i)) (lower label)
        \<and> has_value p (snd (field_mappings ! i))
        \<and> (\<forall>j<i. \<not> (contains (fst (field_mappings ! j)) (lower label)
                      \<and> has_value p (snd (field_mappings ! j))))"
  have "match_mappings field_mappings (lower label) p = Some (snd (field_mappings ! i))"
    by (rule match_mappings_first) (use a in \<open>simp_all add: rule_applies_def\<close>)
  then show "resolve_input label p = Some (snd (field_mappings ! i))"
    by (simp add: resolve_input_def)
next
  assume "has_value p ''years_of_experience''"
  then show "resolve_input ''Years of Experience'' p = Some ''years_of_experience''"
    by (simp add: resolve_input_def lower_years match_years)
qed

theorem resolve_input_first_rule_witness:
  "resolve_input ''Mobile Phone Number'' [(''full_name'', ''Ada Lovelace''), (''phone'', ''555'')]
     = Some ''phone''
 \<and> resolve_input ''Years of Experience''
      [(''total_years_experience'', ''9''), (''years_of_experience'', ''5'')]
     = Some ''years_of_experience''"
proof -
  let ?p = "[(''full_name'', ''Ada Lovelace''), (''phone'', ''555'')]"
  have l: "lower ''Mobile Phone Number'' = ''mobile phone number''"
    by (simp add: lower_def lower_char_def)
  have "resolve_input ''Mobile Phone Number'' ?p = Some (snd (field_mappings ! 3))"
    using resolve_input_first_rule[of "''Mobile Phone Number''" ?p, THEN conjunct1, THEN spec, of 3]
    by (simp add: l field_mappings_def has_value_def less_Suc_eq numeral_3_eq_3)
  moreover have "resolve_input ''Years of Experience''
      [(''total_years_experience'', ''9''), (''years_of_experience'', ''5'')]
     = Some ''years_of_experience''"
    using resolve_input_first_rule[of "''Years of Experience''"
        "[(''total_years_experience'', ''9''), (''years_of_experience'', ''5'')]"]
    by (simp add: has_value_def)
  ultimately show ?thesis by (simp add: field_mappings_def)
qed

subsection \<open>The augmentation path\<close>

text \<open>
  The key derived from a label in \<open>_add_missing_field_to_config\<close>: lower-cased and stripped,
  every space and every hyphen replaced by an underscore, then every character outside
  \<open>[a-z0-9_]\<close> removed.
\<close>

definition normalize_key :: "string \<Rightarrow> string" where
  "normalize_key field_label =
     filter is_key_char
       (replace_char (CHR ''-'') (CHR ''_'')
          (replace_char (CHR '' '') (CHR ''_'') (strip (lower field_label))))"

text \<open>
  The configuration the function works on: the \<open>profile\<close> section of the \<open>CONFIG\<close> dict in
  memory (\<open>None\<close> when \<open>CONFIG\<close> has no such section) and the file \<open>config.toml\<close>, which is
  absent, or cannot be parsed by \<open>toml.load\<close>, or holds sections of which only \<open>profile\<close>
  matters here. \<open>writable\<close> tells whether opening the file for writing succeeds.
\<close>

datatype toml_file = Absent | Unparsable | Toml "profile option"

record config =
  profile_section :: "profile option"
  config_file :: toml_file
  writable :: bool

definition section_entries :: "profile option \<Rightarrow> profile" where
  "section_entries sec = (case sec of None \<Rightarrow> [] | Some p \<Rightarrow> p)"

text \<open>
  \<open>_add_missing_field_to_config(field_label)\<close>. A dict assignment \<open>d[k] = v\<close> is
  \<open>AList.update k v\<close>: the value is replaced where the key stands, or the pair is appended.
  Every exception of the file update is caught and logged inside the function.
\<close>

definition add_missing_field_to_config :: "string \<Rightarrow> config \<Rightarrow> config" where
  "add_missing_field_to_config field_label cfg =
     (if field_label = [] \<or> length field_label < 3 then cfg
      else
        let field_key = normalize_key field_label in
        if (case profile_section cfg of
              None \<Rightarrow> False
            | Some p \<Rightarrow> map_of p field_key \<noteq> None)
        then cfg
        else
          let cfg1 = cfg\<lparr>profile_section :=
                        Some (AList.update field_key [] (section_entries (profile_section cfg)))\<rparr>
          in (case config_file cfg1 of
                Absent \<Rightarrow> cfg1
              | Unparsable \<Rightarrow> cfg1
              | Toml sec \<Rightarrow>
                  if writable cfg1
                  then cfg1\<lparr>config_file :=
                          Toml (Some (AList.update field_key [] (section_entries sec)))\<rparr>
                  else cfg1))"

lemma update_absent: "map_of p k = None \<Longrightarrow> AList.update k v p = p @ [(k, v)]"
  by (induction p) (auto split: if_splits)

lemma add_missing_entries:
  "section_entries (profile_section (add_missing_field_to_config l cfg))
     = section_entries (profile_section cfg)
 \<or> (map_of (section_entries (profile_section cfg)) (normalize_key l) = None
    \<and> section_entries (profile_section (add_missing_field_to_config l cfg))
        = section_entries (profile_section cfg) @ [(normalize_key l, [])])"
proof (cases "map_of (section_entries (profile_section cfg)) (normalize_key l)")
  case None
  then show ?thesis
    by (auto simp: add_missing_field_to_config_def Let_def section_entries_def update_absent
        split: option.splits toml_file.splits)
next
  case (Some v)
  then show ?thesis
    by (auto simp: add_missing_field_to_config_def Let_def section_entries_def
        split: option.splits toml_file.splits)
qed

lemma add_missing_idempotent:
  "add_missing_field_to_config l (add_missing_field_to_config l cfg)
     = add_missing_field_to_config l cfg"
  by (auto simp: add_missing_field_to_config_def Let_def section_entries_def update_conv'
      split: option.splits toml_file.splits)

lemma normalize_favorite_color: "normalize_key ''Favorite Color'' = ''favorite_color''"
  by (simp add: normalize_key_def lower_def lower_char_def strip_def is_space_def
      replace_char_def is_key_char_def)

text \<open>
  Claim C5. Observing a label leaves the profile record as it was or appends one entry, the
  normalised key with the empty string, and only when the key was not there; no value of a
  key already present changes; distinct keys stay distinct; and observing the same label
  again changes nothing at all, in memory or in the file. The label "Favorite Color"
  gives the key \<open>favorite_color\<close>.
\<close>

theorem add_missing_field_once:
  "add_missing_field_to_config l (add_missing_field_to_config l cfg)
     = add_missing_field_to_config l cfg
 \<and> (section_entries (profile_section (add_missing_field_to_config l cfg))
       = section_entries (profile_section cfg)
    \<or> (map_of (section_entries (profile_section cfg)) (normalize_key l) = None
       \<and> section_entries (profile_section (add_missing_field_to_config l cfg))
           = section_entries (profile_section cfg) @ [(normalize_key l, [])]))
 \<and> (\<forall>k v. map_of (section_entries (profile_section cfg)) k = Some v
        \<longrightarrow> map_of (section_entries (profile_section (add_missing_field_to_config l cfg))) k
            = Some v)
 \<and> (distinct (map fst (section_entries (profile_section cfg)))
        \<longrightarrow> distinct (map fst (section_entries (profile_section (add_missing_field_to_config l cfg)))))
 \<and> normalize_key ''Favorite Color'' = ''favorite_color''"
proof (intro conjI allI impI)
  show "add_missing_field_to_config l (add_missing_field_to_config l cfg)
     = add_missing_field_to_config l cfg"
    by (rule add_missing_idempotent)
  show "section_entries (profile_section (add_missing_field_to_config l cfg))
       = section_entries (profile_section cfg)
    \<or> (map_of (section_entries (profile_section cfg)) (normalize_key l) = None
       \<and> section_entries (profile_section (add_missing_field_to_config l cfg))
           = section_entries (profile_section cfg) @ [(normalize_key l, [])])"
    by (rule add_missing_entries)
  show "normalize_key ''Favorite Color'' = ''favorite_color''"
    by (rule normalize_favorite_color)
next
  fix k v
  assume "map_of (section_entries (profile_section cfg)) k = Some v"
  then show "map_of (section_entries (profile_section (add_missing_field_to_config l cfg))) k = Some v"
    using add_missing_entries[of l cfg] by auto
next
  assume "distinct (map fst (section_entries (profile_section cfg)))"
  then show "distinct (map fst (section_entries (profile_section (add_missing_field_to_config l cfg))))"
    using add_missing_entries[of l cfg] by (auto simp: map_of_eq_None_iff)
qed

definition example_config :: config where
  "example_config =
     \<lparr>profile_section = Some [(''email'', ''ada@example.org'')],
      config_file = Toml (Some [(''email'', ''ada@example.org'')]),
      writable = True\<rparr>"

theorem add_missing_field_once_witness:
  "add_missing_field_to_config ''favorite color'' example_config
     = \<lparr>profile_section = Some [(''email'', ''ada@example.org''), (''favorite_color'', '''')],
        config_file = Toml (Some [(''email'', ''ada@example.org''), (''favorite_color'', '''')]),
        writable = True\<rparr>
 \<and> add_missing_field_to_config ''favorite color''
       (add_missing_field_to_config ''favorite color'' example_config)
     = add_missing_field_to_config ''favorite color'' example_config
 \<and> map_of (section_entries (profile_section
       (add_missing_field_to_config ''favorite color'' example_config))) ''email''
     = Some ''ada@example.org''
 \<and> distinct (map fst (section_entries (profile_section
       (add_missing_field_to_config ''favorite color'' example_config))))"
proof -
  have k: "normalize_key ''favorite color'' = ''favorite_color''"
    by (simp add: normalize_key_def lower_def lower_char_def strip_def is_space_def
        replace_char_def is_key_char_def)
  have e: "add_missing_field_to_config ''favorite color'' example_config
     = \<lparr>profile_section = Some [(''email'', ''ada@example.org''), (''favorite_color'', '''')],
        config_file = Toml (Some [(''email'', ''ada@example.org''), (''favorite_color'', '''')]),
        writable = True\<rparr>"
    by (simp add: add_missing_field_to_config_def k example_config_def section_entries_def Let_def)
  have m: "map_of (section_entries (profile_section example_config)) ''email'' = Some ''ada@example.org''"
    by (simp add: example_config_def section_entries_def)
  have d: "distinct (map fst (section_entries (profile_section example_config)))"
    by (simp add: example_config_def section_entries_def)
  note t = add_missing_field_once[of "''favorite color''" example_config]
  from t m have "map_of (section_entries (profile_section
       (add_missing_field_to_config ''favorite color'' example_config))) ''email''
     = Some ''ada@example.org''" by blast
  moreover from t d have "distinct (map fst (section_entries (profile_section
       (add_missing_field_to_config ''favorite color'' example_config))))" by blast
  moreover from t have "add_missing_field_to_config ''favorite color''
       (add_missing_field_to_config ''favorite color'' example_config)
     = add_missing_field_to_config ''favorite color'' example_config" by blast
  ultimately show ?thesis using e by simp
qed

section \<open>The connection campaign: features/connections.py\<close>

subsection \<open>Elements, dialogs and pages\<close>

text \<open>
  The browser is the environment of the campaign. What it shows is data of the model: an
  element is the list of what its successive click attempts do (\<open>None\<close>: the click goes
  through, \<open>Some e\<close>: it raises \<open>e\<close>; past the end of the list clicks go through), and
  \<open>find_element\<close> yields an element or raises \<open>NoSuchElementException\<close>, which is an
  \<open>element option\<close>.
\<close>

type_synonym element = "exn option list"

fun click_once :: "(element, bool) operation" where
  "click_once [] = (Inr True, [])"
| "click_once (None # rest) = (Inr True, rest)"
| "click_once (Some e # rest) = (Inl e, rest)"

text \<open>
  \<open>wait_to_click(element)\<close>, decorated with \<open>retry(max_attempts=2)\<close>: the body clicks and
  returns \<open>True\<close>, and re-raises whatever the click raises.
\<close>

definition wait_to_click :: "element \<Rightarrow> exn + bool option" where
  "wait_to_click el = fst (retry 2 1 click_once el)"

text \<open>The buttons of the dialog that asks whether to add a note.\<close>

record dialog =
  send_without_note :: "element option"
  send_button :: "element option"
  dismiss_button :: "element option"

text \<open>
  The inner \<open>try\<close> of the \<open>except NoSuchElementException\<close> branch of
  \<open>send_connection_request\<close>: the plain Send button. An exception of the click other than
  \<open>NoSuchElementException\<close> leaves the function.
\<close>

definition click_send_button :: "dialog \<Rightarrow> exn + bool" where
  "click_send_button d =
     (case send_button d of
        None \<Rightarrow> Inr False
      | Some el \<Rightarrow>
          (case wait_to_click el of
             Inr r \<Rightarrow> Inr True
           | Inl e \<Rightarrow> if e = NoSuchElementException then Inr False else Inl e))"

text \<open>The \<open>except Exception\<close> branch: the modal is dismissed if it can be, and the result is \<open>False\<close>.\<close>

definition dismiss_modal :: "dialog \<Rightarrow> exn + bool" where
  "dismiss_modal d =
     (case dismiss_button d of
        None \<Rightarrow> Inr False
      | Some el \<Rightarrow>
          (case wait_to_click el of
             Inr r \<Rightarrow> Inr False
           | Inl e \<Rightarrow> if is_Exception e then Inr False else Inl e))"

definition send_connection_request :: "dialog \<Rightarrow> exn + bool option" where
  "send_connection_request d =
     safe_result
       (case send_without_note d of
          None \<Rightarrow> click_send_button d
        | Some el \<Rightarrow>
            (case wait_to_click el of
               Inr r \<Rightarrow> Inr True
             | Inl e \<Rightarrow>
                 if e = NoSuchElementException then click_send_button d
                 else if is_Exception e then dismiss_modal d
                 else Inl e))"

text \<open>
  What a profile tab shows to one attempt of \<open>connect_in_profile_tab\<close>; a tab holds one view
  for each attempt made on it, since the page may have changed between two attempts.
\<close>

record profile_view =
  more_button :: "element option"
  connect_button :: "element option"
  connect_dialog :: dialog

text \<open>
  A button of the result list: its text (reading it may raise), what a direct \<open>click()\<close> on it
  does, the dialog the click opens, and for a Follow button the profile its list entry links
  to (the look-up of the link may raise).
\<close>

record button =
  button_text :: "exn + string"
  button_click :: "exn option"
  request_dialog :: dialog
  profile_link :: "exn + profile_view list"

text \<open>
  A page of search results: what the first and the second search for buttons yield, the Next
  button, the Got-it button of the intercepting dialog, and the Next button found again
  after that dialog.
\<close>

record page =
  first_search :: "exn + button list"
  second_search :: "exn + button list"
  next_button :: "element option"
  got_it_button :: "element option"
  next_button_again :: "element option"

definition blank_page :: page where
  "blank_page =
     \<lparr>first_search = Inr [], second_search = Inr [], next_button = None,
      got_it_button = None, next_button_again = None\<rparr>"

subsection \<open>The manager and the driver\<close>

text \<open>
  The fields of \<open>ConnectionManager\<close> and the state of the driver: the open windows, the window
  that has the focus, the views of every tab, whether a window opened by script takes the
  focus, and the result pages from the current one on (past the last page the browser
  shows a blank page).
\<close>

type_synonym handle = nat

record world =
  connection_count :: nat
  max_connections :: int
  main_window :: "handle option"
  window_handles :: "handle list"
  current_window :: handle
  tab_views :: "handle \<Rightarrow> profile_view list"
  focus_follows_open :: bool
  pages :: "page list"

definition current_page :: "world \<Rightarrow> page" where
  "current_page w = (case pages w of [] \<Rightarrow> blank_page | p # ps \<Rightarrow> p)"

text \<open>\<open>driver.current_window_handle\<close>: raises when the focused window has been closed.\<close>

definition current_window_handle :: "world \<Rightarrow> exn + handle" where
  "current_window_handle w =
     (if current_window w \<in> set (window_handles w) then Inr (current_window w)
      else Inl NoSuchWindowException)"

text \<open>\<open>driver.switch_to.window(h)\<close>.\<close>

definition switch_to_window :: "handle \<Rightarrow> world \<Rightarrow> (exn + unit) \<times> world" where
  "switch_to_window h w =
     (if h \<in> set (window_handles w) then (Inr (), w\<lparr>current_window := h\<rparr>)
      else (Inl NoSuchWindowException, w))"

text \<open>\<open>driver.close()\<close>: closes the focused window; the focus stays on the closed handle.\<close>

definition close_window :: "world \<Rightarrow> (exn + unit) \<times> world" where
  "close_window w =
     (if current_window w \<in> set (window_handles w)
      then (Inr (), w\<lparr>window_handles := removeAll (current_window w) (window_handles w)\<rparr>)
      else (Inl NoSuchWindowException, w))"

text \<open>
  \<open>driver.execute_script("window.open(url, '_blank')")\<close>: a window with a fresh handle shows
  the profile.
\<close>

definition new_handle :: "world \<Rightarrow> handle" where
  "new_handle w = Suc (fold max (window_handles w) (current_window w))"

definition open_window :: "profile_view list \<Rightarrow> world \<Rightarrow> world" where
  "open_window views w =
     (let h = new_handle w in
      w\<lparr>window_handles := window_handles w @ [h],
        tab_views := (tab_views w)(h := views),
        current_window := (if focus_follows_open w then h else current_window w)\<rparr>)"

subsection \<open>Processing the buttons of a page\<close>

text \<open>\<open>_open_profile_in_new_tab(button)\<close>: every \<open>Exception\<close> is logged and gives \<open>False\<close>.\<close>

definition open_profile_in_new_tab :: "button \<Rightarrow> world \<Rightarrow> (exn + bool) \<times> world" where
  "open_profile_in_new_tab b w =
     (case profile_link b of
        Inl e \<Rightarrow> if is_Exception e then (Inr False, w) else (Inl e, w)
      | Inr profile \<Rightarrow>
          (case current_window_handle w of
             Inl e \<Rightarrow> (Inr False, w)
           | Inr current_tab \<Rightarrow>
               (case switch_to_window current_tab (open_window profile w) of
                  (Inl e, w') \<Rightarrow> (Inr False, w')
                | (Inr u, w') \<Rightarrow> (Inr True, w'))))"

text \<open>The quota check at the head of the loop: \<open>0 < self.max_connections <= self.connection_count\<close>.\<close>

definition connection_limit_reached :: "world \<Rightarrow> bool" where
  "connection_limit_reached w =
     (0 < max_connections w \<and> max_connections w \<le> int (connection_count w))"

text \<open>
  The \<open>try\<close> statement in the body of the loop, for one button. Both \<open>except\<close> clauses go on
  with the next button.
\<close>

definition skip_on_exception :: "exn \<Rightarrow> world \<Rightarrow> (exn + unit) \<times> world" where
  "skip_on_exception e w = (if is_Exception e then (Inr (), w) else (Inl e, w))"

definition process_button :: "button \<Rightarrow> world \<Rightarrow> (exn + unit) \<times> world" where
  "process_button b w =
     (case button_text b of
        Inl e \<Rightarrow> skip_on_exception e w
      | Inr t \<Rightarrow>
          if t = ''Follow'' then
            (case open_profile_in_new_tab b w of
               (Inl e, w') \<Rightarrow> skip_on_exception e w'
             | (Inr r, w') \<Rightarrow> (Inr (), w'))
          else if t = ''Connect'' then
            (case button_click b of
               Some e \<Rightarrow> skip_on_exception e w
             | None \<Rightarrow>
                 (case send_connection_request (request_dialog b) of
                    Inl e \<Rightarrow> skip_on_exception e w
                  | Inr r \<Rightarrow>
                      if r = Some True
                      then (Inr (), w\<lparr>connection_count := connection_count w + 1\<rparr>)
                      else (Inr (), w)))
          else (Inr (), w))"

fun process_buttons_loop :: "button list \<Rightarrow> world \<Rightarrow> (exn + bool) \<times> world" where
  "process_buttons_loop [] w = (Inr True, w)"
| "process_buttons_loop (b # bs) w =
     (if connection_limit_reached w then (Inr False, w)
      else (case process_button b w of
              (Inl e, w') \<Rightarrow> (Inl e, w')
            | (Inr u, w') \<Rightarrow> process_buttons_loop bs w'))"

text \<open>\<open>if not self.main_window: self.main_window = self.driver.current_window_handle\<close>.\<close>

definition ensure_main_window :: "world \<Rightarrow> (exn + unit) \<times> world" where
  "ensure_main_window w =
     (case main_window w of
        Some m \<Rightarrow> (Inr (), w)
      | None \<Rightarrow>
          (case current_window_handle w of
             Inl e \<Rightarrow> (Inl e, w)
           | Inr h \<Rightarrow> (Inr (), w\<lparr>main_window := Some h\<rparr>)))"

definition process_connection_buttons :: "button list \<Rightarrow> world \<Rightarrow> (exn + bool option) \<times> world" where
  "process_connection_buttons button_list w =
     safe_operation
       (if button_list = [] then (Inr True, w)
        else (case ensure_main_window w of
                (Inl e, w') \<Rightarrow> (Inl e, w')
              | (Inr u, w') \<Rightarrow> process_buttons_loop button_list w'))"

subsection \<open>Secondary tabs\<close>

text \<open>
  The \<open>except\<close> clauses of \<open>connect_in_profile_tab\<close>: a stale element is raised again, for
  the retry decorator; every other \<open>Exception\<close> gives \<open>False\<close>.
\<close>

definition profile_tab_except :: "exn \<Rightarrow> exn + bool" where
  "profile_tab_except e =
     (if e = NoSuchElementException then Inr False
      else if e = StaleElementReferenceException then Inl e
      else if is_Exception e then Inr False
      else Inl e)"

text \<open>
  One attempt of \<open>connect_in_profile_tab\<close> on the focused tab. The attempt sees the first of
  the tab's remaining views (a tab with no view left shows no More button), and in a closed
  window every look-up raises \<open>NoSuchWindowException\<close>.
\<close>

definition connect_attempt :: "(world, bool) operation" where
  "connect_attempt w =
     (if current_window w \<notin> set (window_handles w)
      then (profile_tab_except NoSuchWindowException, w)
      else
        (case tab_views w (current_window w) of
           [] \<Rightarrow> (Inr False, w)
         | v # vs \<Rightarrow>
             let w1 = w\<lparr>tab_views := (tab_views w)(current_window w := vs)\<rparr> in
             (case more_button v of
                None \<Rightarrow> (Inr False, w1)
              | Some more_el \<Rightarrow>
                  (case wait_to_click more_el of
                     Inl e \<Rightarrow> (profile_tab_except e, w1)
                   | Inr r \<Rightarrow>
                       (case connect_button v of
                          None \<Rightarrow> (Inr False, w1)
                        | Some connect_el \<Rightarrow>
                            (case wait_to_click connect_el of
                               Inl e \<Rightarrow> (profile_tab_except e, w1)
                             | Inr r' \<Rightarrow>
                                 (case send_connection_request (connect_dialog v) of
                                    Inl e \<Rightarrow> (profile_tab_except e, w1)
                                  | Inr sent \<Rightarrow>
                                      if sent = Some True
                                      then (Inr True,
                                            w1\<lparr>connection_count := connection_count w1 + 1\<rparr>)
                                      else (Inr False, w1))))))))"

definition connect_in_profile_tab :: "world \<Rightarrow> (exn + bool option) \<times> world" where
  "connect_in_profile_tab w = retry 2 1 connect_attempt w"

text \<open>
  The \<open>except Exception\<close> clause around one tab in \<open>process_opened_tabs\<close>: the tab is closed
  if it can be, and an \<open>Exception\<close> of the closing is ignored.
\<close>

definition close_after_error :: "exn \<Rightarrow> world \<Rightarrow> (exn + unit) \<times> world" where
  "close_after_error e w =
     (if \<not> is_Exception e then (Inl e, w)
      else (case close_window w of
              (Inl e', w') \<Rightarrow> if is_Exception e' then (Inr (), w') else (Inl e', w')
            | (Inr u, w') \<Rightarrow> (Inr (), w')))"

definition process_tab :: "handle \<Rightarrow> world \<Rightarrow> (exn + unit) \<times> world" where
  "process_tab tab w =
     (case switch_to_window tab w of
        (Inl e, w1) \<Rightarrow> close_after_error e w1
      | (Inr u, w1) \<Rightarrow>
          (case connect_in_profile_tab w1 of
             (Inl e, w2) \<Rightarrow> close_after_error e w2
           | (Inr success, w2) \<Rightarrow>
               (case close_window w2 of
                  (Inl e, w3) \<Rightarrow> close_after_error e w3
                | (Inr u', w3) \<Rightarrow> (Inr (), w3))))"

fun drain_tabs :: "handle list \<Rightarrow> world \<Rightarrow> (exn + unit) \<times> world" where
  "drain_tabs [] w = (Inr (), w)"
| "drain_tabs (tab # tabs) w =
     (case process_tab tab w of
        (Inl e, w') \<Rightarrow> (Inl e, w')
      | (Inr u, w') \<Rightarrow> drain_tabs tabs w')"

text \<open>
  The outer \<open>except Exception\<close> clause of \<open>process_opened_tabs\<close>: one more attempt to return
  to the main window, whose failure is ignored, and the number of connections made.
\<close>

definition return_to_main :: "world \<Rightarrow> world" where
  "return_to_main w =
     (case main_window w of
        None \<Rightarrow> w
      | Some m \<Rightarrow> snd (switch_to_window m w))"

definition tabs_error :: "nat \<Rightarrow> exn \<Rightarrow> world \<Rightarrow> (exn + nat) \<times> world" where
  "tabs_error initial_count e w =
     (if \<not> is_Exception e then (Inl e, w)
      else (let w' = return_to_main w in (Inr (connection_count w' - initial_count), w')))"

text \<open>
  \<open>process_opened_tabs\<close>. Its parameter \<open>tabs\<close> is never read: the tabs to process are
  always the open windows other than the main window.
\<close>

definition process_opened_tabs :: "world \<Rightarrow> (exn + nat option) \<times> world" where
  "process_opened_tabs w =
     (let initial_count = connection_count w in
      safe_operation
        (case ensure_main_window w of
           (Inl e, w1) \<Rightarrow> tabs_error initial_count e w1
         | (Inr u, w1) \<Rightarrow>
             let tabs_to_process = filter (\<lambda>tab. Some tab \<noteq> main_window w1) (window_handles w1) in
             (case drain_tabs tabs_to_process w1 of
                (Inl e, w2) \<Rightarrow> tabs_error initial_count e w2
              | (Inr u', w2) \<Rightarrow>
                  (case main_window w2 of
                     None \<Rightarrow> tabs_error initial_count OtherException w2
                   | Some m \<Rightarrow>
                       (case switch_to_window m w2 of
                          (Inl e, w3) \<Rightarrow> tabs_error initial_count e w3
                        | (Inr u'', w3) \<Rightarrow>
                            (Inr (connection_count w3 - initial_count), w3))))))"

subsection \<open>What the retry wrapper preserves\<close>

lemma retry_loop_preserves:
  assumes step: "\<And>s r s'. f s = (r, s') \<Longrightarrow> R s s'"
    and refl: "\<And>s. R s s"
    and trans: "\<And>a b c. R a b \<Longrightarrow> R b c \<Longrightarrow> R a c"
  shows "R s (snd (retry_loop N d f a s))"
proof (induction "nat (N - a)" arbitrary: a s)
  case 0
  then have "\<not> a < N" by simp
  then show ?case by (simp add: retry_loop_stop refl)
next
  case (Suc n)
  then have lt: "a < N" and n: "n = nat (N - (a + 1))" by auto
  obtain r s' where fs: "f s = (r, s')" by (cases "f s")
  have one: "R s s'" using fs by (rule step)
  have rest: "R s' (snd (retry_loop N d f (a + 1) s'))" by (rule Suc.hyps(1)[OF n])
  have "snd (retry_loop N d f a s) = s' \<or>
        snd (retry_loop N d f a s) = snd (retry_loop N d f (a + 1) s')"
    using lt fs retry_loop.simps[of N d f a s] by (auto split: sum.splits option.splits)
  then show ?case using one rest trans by metis
qed

lemma retry_preserves:
  assumes "\<And>s r s'. f s = (r, s') \<Longrightarrow> R s s'" "\<And>s. R s s"
    "\<And>a b c. R a b \<Longrightarrow> R b c \<Longrightarrow> R a c"
  shows "R s (snd (retry N d f s))"
  unfolding retry_def using assms by (rule retry_loop_preserves)

subsection \<open>Opening a tab keeps the focus\<close>

lemma switch_to_open_window:
  "h \<in> set (window_handles w) \<Longrightarrow> switch_to_window h w = (Inr (), w\<lparr>current_window := h\<rparr>)"
  by (simp add: switch_to_window_def)

lemma switch_to_closed_window:
  "h \<notin> set (window_handles w) \<Longrightarrow> switch_to_window h w = (Inl NoSuchWindowException, w)"
  by (simp add: switch_to_window_def)

text \<open>
  Claim C8. Whatever the button, the link look-up and the browser's way of focusing new
  windows, the focused window after \<open>_open_profile_in_new_tab\<close> is the one focused before.
\<close>

theorem open_profile_keeps_focus:
  "current_window (snd (open_profile_in_new_tab b w)) = current_window w"
proof (cases "profile_link b")
  case (Inl e)
  then show ?thesis by (simp add: open_profile_in_new_tab_def)
next
  case (Inr profile)
  show ?thesis
  proof (cases "current_window w \<in> set (window_handles w)")
    case False
    with Inr show ?thesis
      by (simp add: open_profile_in_new_tab_def current_window_handle_def)
  next
    case True
    then have "current_window w \<in> set (window_handles (open_window profile w))"
      by (simp add: open_window_def Let_def)
    then have "switch_to_window (current_window w) (open_window profile w)
        = (Inr (), (open_window profile w)\<lparr>current_window := current_window w\<rparr>)"
      by (rule switch_to_open_window)
    with Inr True show ?thesis
      by (simp add: open_profile_in_new_tab_def current_window_handle_def)
  qed
qed

subsection \<open>Draining the tabs returns the focus to the main window\<close>

text \<open>
  \<open>same_windows w w'\<close>: the step from \<open>w\<close> to \<open>w'\<close> touched neither the windows, nor the
  focus, nor the manager's main window, quota and result pages, and sent no request back.
\<close>

definition same_windows :: "world \<Rightarrow> world \<Rightarrow> bool" where
  "same_windows w w' =
     (window_handles w' = window_handles w \<and> current_window w' = current_window w
      \<and> main_window w' = main_window w \<and> max_connections w' = max_connections w
      \<and> pages w' = pages w \<and> focus_follows_open w' = focus_follows_open w
      \<and> connection_count w \<le> connection_count w')"

lemma same_windows_refl: "same_windows w w"
  by (simp add: same_windows_def)

lemma same_windows_trans: "same_windows a b \<Longrightarrow> same_windows b c \<Longrightarrow> same_windows a c"
  by (auto simp: same_windows_def)

lemma connect_attempt_same_windows: "connect_attempt w = (r, w') \<Longrightarrow> same_windows w w'"
  by (auto simp: connect_attempt_def same_windows_def Let_def
      split: if_splits list.splits option.splits sum.splits)

lemma connect_in_profile_tab_same_windows:
  "same_windows w (snd (connect_in_profile_tab w))"
  unfolding connect_in_profile_tab_def
  by (rule retry_preserves[where R = same_windows])
    (auto intro: connect_attempt_same_windows same_windows_refl same_windows_trans)

text \<open>
  \<open>main_kept m w w'\<close>: from \<open>w\<close> to \<open>w'\<close> the main window \<open>m\<close> stayed the manager's main
  window and stayed open, and the focus is on another window.
\<close>

definition main_open :: "handle \<Rightarrow> world \<Rightarrow> bool" where
  "main_open m w = (main_window w = Some m \<and> m \<in> set (window_handles w))"

lemma close_window_main_open:
  "main_open m w \<Longrightarrow> current_window w \<noteq> m \<Longrightarrow>
   main_open m (snd (close_window w)) \<and> current_window (snd (close_window w)) = current_window w"
  by (auto simp: close_window_def main_open_def)

lemma close_after_error_main_open:
  "main_open m w \<Longrightarrow> current_window w \<noteq> m \<Longrightarrow>
   main_open m (snd (close_after_error e w))
   \<and> current_window (snd (close_after_error e w)) = current_window w"
  using close_window_main_open[of m w]
  by (auto simp: close_after_error_def split: prod.splits sum.splits)

lemma process_tab_main_open:
  assumes m: "main_open m w" and tab: "tab \<noteq> m"
    and focus: "current_window w \<noteq> m \<or> tab \<in> set (window_handles w)"
  shows "main_open m (snd (process_tab tab w)) \<and> current_window (snd (process_tab tab w)) \<noteq> m"
proof (cases "tab \<in> set (window_handles w)")
  case False
  with focus have c: "current_window w \<noteq> m" by simp
  from False have "process_tab tab w = close_after_error NoSuchWindowException w"
    by (simp add: process_tab_def switch_to_closed_window)
  with close_after_error_main_open[OF m c] c show ?thesis by simp
next
  case True
  let ?w1 = "w\<lparr>current_window := tab\<rparr>"
  obtain r w2 where c: "connect_in_profile_tab ?w1 = (r, w2)"
    by (cases "connect_in_profile_tab ?w1")
  have "same_windows ?w1 w2"
    using connect_in_profile_tab_same_windows[of ?w1] c by simp
  with m tab have m2: "main_open m w2" and c2: "current_window w2 \<noteq> m"
    by (auto simp: same_windows_def main_open_def)
  note closing = close_window_main_open[OF m2 c2] close_after_error_main_open[OF m2 c2]
  have again: "main_open m (snd (close_after_error e (snd (close_window w2))))
      \<and> current_window (snd (close_after_error e (snd (close_window w2)))) \<noteq> m" for e
    using close_after_error_main_open[of m "snd (close_window w2)" e] closing(1) c2 by simp
  obtain rc w3 where cw: "close_window w2 = (rc, w3)" by (cases "close_window w2")
  have "(\<exists>e'. snd (process_tab tab w) = snd (close_after_error e' w2))
      \<or> (\<exists>e'. snd (process_tab tab w) = snd (close_after_error e' w3))
      \<or> snd (process_tab tab w) = w3"
    using True c cw
    by (cases r; cases rc) (simp_all add: process_tab_def switch_to_open_window, blast+)
  moreover have "main_open m w3 \<and> current_window w3 \<noteq> m"
    using closing(1) cw c2 by simp
  moreover have "main_open m (snd (close_after_error e' w3))
      \<and> current_window (snd (close_after_error e' w3)) \<noteq> m" for e'
    using again[of e'] cw by simp
  moreover have "main_open m (snd (close_after_error e' w2))
      \<and> current_window (snd (close_after_error e' w2)) \<noteq> m" for e'
    using closing(2)[of e'] c2 by simp
  ultimately show ?thesis by metis
qed

lemma drain_tabs_main_open:
  "main_open m w \<Longrightarrow> m \<notin> set tabs \<Longrightarrow>
   current_window w \<noteq> m \<or> set tabs \<subseteq> set (window_handles w) \<Longrightarrow>
   main_open m (snd (drain_tabs tabs w))"
proof (induction tabs arbitrary: w)
  case Nil
  then show ?case by simp
next
  case (Cons tab tabs)
  have step: "main_open m (snd (process_tab tab w)) \<and> current_window (snd (process_tab tab w)) \<noteq> m"
    by (rule process_tab_main_open) (use Cons.prems in auto)
  obtain r w' where p: "process_tab tab w = (r, w')" by (cases "process_tab tab w")
  with step have m': "main_open m w'" and c': "current_window w' \<noteq> m" by simp_all
  have "main_open m (snd (drain_tabs tabs w'))"
    by (rule Cons.IH) (use m' c' Cons.prems in auto)
  with p m' show ?case by (cases r) simp_all
qed

lemma main_window_update_same: "main_window w = Some m \<Longrightarrow> w\<lparr>main_window := Some m\<rparr> = w"
  by (cases w) simp

lemma ensure_main_window_open:
  assumes "case main_window w of Some m \<Rightarrow> m \<in> set (window_handles w)
           | None \<Rightarrow> current_window w \<in> set (window_handles w)"
  shows "\<exists>m. ensure_main_window w = (Inr (), w\<lparr>main_window := Some m\<rparr>) \<and> m \<in> set (window_handles w)
           \<and> (main_window w = None \<or> main_window w = Some m)"
proof (cases "main_window w")
  case None
  with assms have "ensure_main_window w
      = (Inr (), w\<lparr>main_window := Some (current_window w)\<rparr>)"
    by (simp add: ensure_main_window_def current_window_handle_def)
  with None assms show ?thesis by auto
next
  case (Some m)
  with assms have "ensure_main_window w = (Inr (), w\<lparr>main_window := Some m\<rparr>)"
    by (simp add: ensure_main_window_def main_window_update_same)
  with Some assms show ?thesis by auto
qed

lemma tabs_error_Inl: "tabs_error c e w = (Inl e', w') \<Longrightarrow> \<not> is_Exception e'"
  by (auto simp: tabs_error_def Let_def split: if_splits)

lemma tabs_error_focus:
  "main_open m w \<Longrightarrow> tabs_error c e w = (Inr r, w') \<Longrightarrow>
   main_open m w' \<and> current_window w' = m"
  by (auto simp: tabs_error_def return_to_main_def main_open_def switch_to_window_def Let_def
      split: if_splits)

lemma not_Exception: "\<not> is_Exception e \<Longrightarrow> e = KeyboardInterrupt"
  by (cases e) simp_all

lemma safe_operation_Inr:
  "safe_operation (x, s) = (Inr r, s') \<Longrightarrow>
   s' = s \<and> ((\<exists>v. x = Inr v \<and> r = Some v) \<or> (\<exists>e. x = Inl e \<and> is_Exception e \<and> r = None))"
  by (auto simp: safe_operation_def safe_result_def split: sum.splits if_splits)

lemma safe_operation_Inl:
  "safe_operation (x, s) = (Inl e, s') \<Longrightarrow> e = KeyboardInterrupt"
  by (auto simp: safe_operation_def safe_result_def not_Exception split: sum.splits if_splits)

text \<open>
  Claim C2. Let the manager's main window be open when \<open>process_opened_tabs\<close> is called (or,
  when the manager has not recorded one yet, let the focused window be open, which then
  becomes the main window). Then for every set of open tabs and whatever happens in the
  tabs, the call either is interrupted from the keyboard or returns, and when it returns
  the focus is on the main window, which is still open.
\<close>

theorem process_opened_tabs_restores_focus:
  assumes "case main_window w of Some m \<Rightarrow> m \<in> set (window_handles w)
           | None \<Rightarrow> current_window w \<in> set (window_handles w)"
  shows "(\<forall>e. fst (process_opened_tabs w) = Inl e \<longrightarrow> e = KeyboardInterrupt)
     \<and> (\<forall>r. fst (process_opened_tabs w) = Inr r \<longrightarrow>
          (\<exists>m. main_window (snd (process_opened_tabs w)) = Some m
             \<and> current_window (snd (process_opened_tabs w)) = m
             \<and> m \<in> set (window_handles (snd (process_opened_tabs w)))
             \<and> (main_window w = None \<or> main_window w = Some m)))"
proof (intro conjI allI impI)
  fix e assume "fst (process_opened_tabs w) = Inl e"
  then show "e = KeyboardInterrupt"
    by (auto simp: process_opened_tabs_def Let_def safe_operation_def safe_result_def
        not_Exception split: sum.splits if_splits)
next
  fix r assume ret: "fst (process_opened_tabs w) = Inr r"
  from ensure_main_window_open[OF assms] obtain m where
    e: "ensure_main_window w = (Inr (), w\<lparr>main_window := Some m\<rparr>)"
    and mw: "m \<in> set (window_handles w)"
    and same: "main_window w = None \<or> main_window w = Some m" by blast
  let ?w1 = "w\<lparr>main_window := Some m\<rparr>"
  let ?tabs = "filter (\<lambda>tab. Some tab \<noteq> main_window ?w1) (window_handles ?w1)"
  have m1: "main_open m ?w1" using mw by (simp add: main_open_def)
  obtain r2 w2 where d: "drain_tabs ?tabs ?w1 = (r2, w2)" by (cases "drain_tabs ?tabs ?w1")
  have m2: "main_open m w2"
    using drain_tabs_main_open[of m ?w1 ?tabs] m1 d by auto
  let ?c = "connection_count w"
  have "\<exists>x w'. process_opened_tabs w = safe_operation (x, w')
          \<and> (\<forall>v. x = Inr v \<longrightarrow> main_open m w' \<and> current_window w' = m)
          \<and> (\<forall>e. x = Inl e \<longrightarrow> \<not> is_Exception e)"
  proof (cases r2)
    case (Inl e2)
    obtain x w' where t: "tabs_error ?c e2 w2 = (x, w')" by (cases "tabs_error ?c e2 w2")
    have "process_opened_tabs w = safe_operation (x, w')"
      using e d Inl t by (simp add: process_opened_tabs_def Let_def)
    moreover have "\<forall>v. x = Inr v \<longrightarrow> main_open m w' \<and> current_window w' = m"
      using tabs_error_focus[OF m2] t by blast
    moreover have "\<forall>e. x = Inl e \<longrightarrow> \<not> is_Exception e"
      using tabs_error_Inl t by blast
    ultimately show ?thesis by blast
  next
    case (Inr u)
    have sw: "switch_to_window m w2 = (Inr (), w2\<lparr>current_window := m\<rparr>)"
      using m2 by (simp add: main_open_def switch_to_open_window)
    have "process_opened_tabs w
        = safe_operation (Inr (connection_count w2 - ?c), w2\<lparr>current_window := m\<rparr>)"
      using e d Inr sw m2 by (simp add: process_opened_tabs_def Let_def main_open_def)
    moreover have "main_open m (w2\<lparr>current_window := m\<rparr>)"
      using m2 by (simp add: main_open_def)
    ultimately show ?thesis by force
  qed
  then obtain x w' where p: "process_opened_tabs w = safe_operation (x, w')"
    and foc: "\<forall>v. x = Inr v \<longrightarrow> main_open m w' \<and> current_window w' = m"
    and exc: "\<forall>e. x = Inl e \<longrightarrow> \<not> is_Exception e" by blast
  from ret p have sr: "safe_result x = Inr r" and snd': "snd (process_opened_tabs w) = w'"
    by (simp_all add: safe_operation_def)
  have "\<exists>v. x = Inr v"
    using sr exc by (cases x) (auto simp: safe_result_def split: if_splits)
  with foc have "main_open m w' \<and> current_window w' = m" by blast
  with snd' same show "\<exists>m. main_window (snd (process_opened_tabs w)) = Some m
             \<and> current_window (snd (process_opened_tabs w)) = m
             \<and> m \<in> set (window_handles (snd (process_opened_tabs w)))
             \<and> (main_window w = None \<or> main_window w = Some m)"
    by (auto simp: main_open_def)
qed

definition no_dialog :: dialog where
  "no_dialog = \<lparr>send_without_note = None, send_button = None, dismiss_button = None\<rparr>"

definition send_dialog :: dialog where
  "send_dialog = \<lparr>send_without_note = Some [], send_button = None, dismiss_button = None\<rparr>"

definition good_view :: profile_view where
  "good_view = \<lparr>more_button = Some [], connect_button = Some [], connect_dialog = send_dialog\<rparr>"

definition stale_view :: profile_view where
  "stale_view =
     \<lparr>more_button = Some [Some StaleElementReferenceException, Some StaleElementReferenceException],
      connect_button = Some [], connect_dialog = send_dialog\<rparr>"

definition two_tabs :: world where
  "two_tabs =
     \<lparr>connection_count = 0, max_connections = 1, main_window = Some 0,
      window_handles = [0, 1, 2], current_window = 0,
      tab_views = (\<lambda>h. [])(1 := [stale_view, stale_view], 2 := [good_view]),
      focus_follows_open = False, pages = []\<rparr>"

lemmas campaign_defs =
  process_opened_tabs_def ensure_main_window_def process_tab_def switch_to_window_def
  connect_in_profile_tab_def retry_def retry_loop.simps connect_attempt_def wait_to_click_def
  profile_tab_except_def close_after_error_def close_window_def send_connection_request_def
  click_send_button_def dismiss_modal_def safe_result_def safe_operation_def tabs_error_def
  return_to_main_def time_sleep_def Let_def

theorem process_opened_tabs_restores_focus_witness:
  "fst (connect_in_profile_tab (two_tabs\<lparr>current_window := 1\<rparr>)) = Inl StaleElementReferenceException
 \<and> fst (process_opened_tabs two_tabs) = Inr (Some 1)
 \<and> main_window (snd (process_opened_tabs two_tabs)) = Some 0
 \<and> current_window (snd (process_opened_tabs two_tabs)) = 0
 \<and> 0 \<in> set (window_handles (snd (process_opened_tabs two_tabs)))"
proof -
  have open_main: "case main_window two_tabs of Some m \<Rightarrow> m \<in> set (window_handles two_tabs)
      | None \<Rightarrow> current_window two_tabs \<in> set (window_handles two_tabs)"
    by (simp add: two_tabs_def)
  have raises: "fst (connect_in_profile_tab (two_tabs\<lparr>current_window := 1\<rparr>))
      = Inl StaleElementReferenceException"
    by (simp add: two_tabs_def good_view_def stale_view_def send_dialog_def campaign_defs)
  have returns: "fst (process_opened_tabs two_tabs) = Inr (Some 1)"
    by (simp add: two_tabs_def good_view_def stale_view_def send_dialog_def campaign_defs)
  have main: "main_window (snd (process_opened_tabs two_tabs)) = Some 0"
    by (simp add: two_tabs_def good_view_def stale_view_def send_dialog_def campaign_defs)
  from process_opened_tabs_restores_focus[OF open_main] returns
  obtain m where "main_window (snd (process_opened_tabs two_tabs)) = Some m"
    "current_window (snd (process_opened_tabs two_tabs)) = m"
    "m \<in> set (window_handles (snd (process_opened_tabs two_tabs)))" by blast
  with main raises returns show ?thesis by simp
qed

subsection \<open>Pagination and the campaign loop\<close>

definition advance_page :: "world \<Rightarrow> world" where
  "advance_page w = w\<lparr>pages := tl (pages w)\<rparr>"

text \<open>An \<open>except Exception\<close> clause of \<open>go_to_next_page\<close> that logs and returns \<open>False\<close>.\<close>

definition navigation_error :: "exn \<Rightarrow> world \<Rightarrow> (exn + bool) \<times> world" where
  "navigation_error e w = (if is_Exception e then (Inr False, w) else (Inl e, w))"

text \<open>The \<open>except ElementNotInteractableException\<close> branch: the Got-it dialog is in the way.\<close>

definition dialog_intercepting :: "page \<Rightarrow> world \<Rightarrow> (exn + bool) \<times> world" where
  "dialog_intercepting p w =
     (case got_it_button p of
        None \<Rightarrow> (Inr False, w)
      | Some got_it \<Rightarrow>
          (case wait_to_click got_it of
             Inl e \<Rightarrow> navigation_error e w
           | Inr r \<Rightarrow>
               (case next_button_again p of
                  None \<Rightarrow> (Inr False, w)
                | Some next_el \<Rightarrow>
                    (case wait_to_click next_el of
                       Inl e \<Rightarrow> navigation_error e w
                     | Inr r' \<Rightarrow> (Inr True, advance_page w)))))"

definition next_page_attempt :: "(world, bool) operation" where
  "next_page_attempt w =
     (let p = current_page w in
      case next_button p of
        None \<Rightarrow> (Inr False, w)
      | Some next_el \<Rightarrow>
          (case wait_to_click next_el of
             Inr r \<Rightarrow> (Inr True, advance_page w)
           | Inl e \<Rightarrow>
               if e = NoSuchElementException then (Inr False, w)
               else if e = ElementNotInteractableException then dialog_intercepting p w
               else navigation_error e w))"

definition go_to_next_page :: "world \<Rightarrow> (exn + bool option) \<times> world" where
  "go_to_next_page w = retry 2 1 next_page_attempt w"

text \<open>
  \<open>find_connection_buttons\<close>, under \<open>safe_operation\<close>; \<open>again\<close> tells the second search of a
  page from the first.
\<close>

definition find_connection_buttons :: "bool \<Rightarrow> world \<Rightarrow> exn + button list option" where
  "find_connection_buttons again w =
     safe_result (if again then second_search (current_page w) else first_search (current_page w))"

text \<open>\<open>not buttons\<close>: \<open>None\<close> or the empty list.\<close>

definition no_buttons :: "button list option \<Rightarrow> bool" where
  "no_buttons buttons = (buttons = None \<or> buttons = Some [])"

definition found_buttons :: "button list option \<Rightarrow> button list" where
  "found_buttons buttons = (case buttons of None \<Rightarrow> [] | Some bs \<Rightarrow> bs)"

definition find_and_process_buttons :: "world \<Rightarrow> (exn + bool option) \<times> world" where
  "find_and_process_buttons w =
     (case find_connection_buttons False w of
        Inl e \<Rightarrow> (Inl e, w)
      | Inr buttons \<Rightarrow>
          if no_buttons buttons then
            (case find_connection_buttons True w of
               Inl e \<Rightarrow> (Inl e, w)
             | Inr buttons' \<Rightarrow>
                 if no_buttons buttons' then go_to_next_page w
                 else process_connection_buttons (found_buttons buttons') w)
          else process_connection_buttons (found_buttons buttons) w)"

text \<open>
  How the \<open>while True\<close> loop of \<open>run_connection_campaign\<close> is left: by its first \<open>break\<close>
  ("No more buttons to process"), by its second \<open>break\<close> ("No more pages"), or by an
  exception or interrupt.
\<close>

datatype campaign_exit = NoMoreButtons | NoMorePages | Raised exn

text \<open>\<open>not r\<close> for a result that is \<open>True\<close>, \<open>False\<close> or \<open>None\<close>.\<close>

definition falsy :: "bool option \<Rightarrow> bool" where
  "falsy r = (r \<noteq> Some True)"

text \<open>\<open>if tab_count >= max_tabs: self.process_opened_tabs()\<close>.\<close>

definition drain_if_full :: "int \<Rightarrow> world \<Rightarrow> (exn + unit) \<times> world" where
  "drain_if_full max_tabs w =
     (if int (length (window_handles w)) - 1 \<ge> max_tabs then
        (case process_opened_tabs w of
           (Inl e, w') \<Rightarrow> (Inl e, w')
         | (Inr made, w') \<Rightarrow> (Inr (), w'))
      else (Inr (), w))"

text \<open>One iteration of the loop: it leaves the loop (\<open>Inl\<close>) or goes round again (\<open>Inr\<close>).\<close>

definition campaign_step :: "int \<Rightarrow> world \<Rightarrow> (campaign_exit + unit) \<times> world" where
  "campaign_step max_tabs w =
     (case find_and_process_buttons w of
        (Inl e, w1) \<Rightarrow> (Inl (Raised e), w1)
      | (Inr r, w1) \<Rightarrow>
          if falsy r then (Inl NoMoreButtons, w1)
          else
            (case drain_if_full max_tabs w1 of
               (Inl e, w2) \<Rightarrow> (Inl (Raised e), w2)
             | (Inr u, w2) \<Rightarrow>
                 (case go_to_next_page w2 of
                    (Inl e, w3) \<Rightarrow> (Inl (Raised e), w3)
                  | (Inr r', w3) \<Rightarrow>
                      if falsy r' then (Inl NoMorePages, w3) else (Inr (), w3))))"

subsection \<open>What the steps of the campaign leave unchanged\<close>

text \<open>
  \<open>same_campaign w w'\<close>: from \<open>w\<close> to \<open>w'\<close> the quota and the result pages are unchanged, a
  recorded main window is still the recorded one, and no request was taken back.
\<close>

definition same_campaign :: "world \<Rightarrow> world \<Rightarrow> bool" where
  "same_campaign w w' =
     (max_connections w' = max_connections w \<and> pages w' = pages w
      \<and> (main_window w = None \<or> main_window w' = main_window w)
      \<and> connection_count w \<le> connection_count w')"

lemma same_campaign_refl: "same_campaign w w"
  by (simp add: same_campaign_def)

lemma same_campaign_trans: "same_campaign a b \<Longrightarrow> same_campaign b c \<Longrightarrow> same_campaign a c"
  by (auto simp: same_campaign_def)

lemma same_windows_campaign: "same_windows w w' \<Longrightarrow> same_campaign w w'"
  by (simp add: same_windows_def same_campaign_def)

lemma open_profile_same_campaign: "same_campaign w (snd (open_profile_in_new_tab b w))"
  by (auto simp: open_profile_in_new_tab_def current_window_handle_def switch_to_window_def
      open_window_def same_campaign_def Let_def split: sum.splits)

lemma process_button_same_campaign: "same_campaign w (snd (process_button b w))"
  using open_profile_same_campaign[of w b]
  by (auto simp: process_button_def skip_on_exception_def same_campaign_def
      split: sum.splits option.splits prod.splits)

lemma process_buttons_loop_same_campaign: "same_campaign w (snd (process_buttons_loop bs w))"
proof (induction bs arbitrary: w)
  case Nil
  show ?case by (simp add: same_campaign_refl)
next
  case (Cons b bs)
  obtain r w' where p: "process_button b w = (r, w')" by (cases "process_button b w")
  then have one: "same_campaign w w'" using process_button_same_campaign[of w b] by simp
  show ?case
  proof (cases "connection_limit_reached w")
    case True
    then show ?thesis by (simp add: same_campaign_refl)
  next
    case False
    show ?thesis
    proof (cases r)
      case (Inl e)
      with False p one show ?thesis by simp
    next
      case (Inr u)
      with False p one Cons.IH[of w'] show ?thesis
        by (auto intro: same_campaign_trans)
    qed
  qed
qed

lemma ensure_main_window_same_campaign: "same_campaign w (snd (ensure_main_window w))"
  by (auto simp: ensure_main_window_def same_campaign_def split: option.splits sum.splits)

lemma process_connection_buttons_same_campaign:
  "same_campaign w (snd (process_connection_buttons bs w))"
proof (cases "bs = []")
  case True
  then show ?thesis
    by (simp add: process_connection_buttons_def safe_operation_def same_campaign_refl)
next
  case False
  obtain r w1 where e: "ensure_main_window w = (r, w1)" by (cases "ensure_main_window w")
  then have one: "same_campaign w w1" using ensure_main_window_same_campaign[of w] by simp
  show ?thesis
  proof (cases r)
    case (Inl x)
    with False e one show ?thesis
      by (simp add: process_connection_buttons_def safe_operation_def)
  next
    case (Inr u)
    with False e have "snd (process_connection_buttons bs w) = snd (process_buttons_loop bs w1)"
      by (simp add: process_connection_buttons_def safe_operation_def)
    with one process_buttons_loop_same_campaign[of w1 bs] show ?thesis
      by (auto intro: same_campaign_trans)
  qed
qed

lemma switch_to_window_same_campaign: "same_campaign w (snd (switch_to_window h w))"
  by (simp add: switch_to_window_def same_campaign_def)

lemma close_window_same_campaign: "same_campaign w (snd (close_window w))"
  by (simp add: close_window_def same_campaign_def)

lemma close_after_error_same_campaign: "same_campaign w (snd (close_after_error e w))"
  using close_window_same_campaign[of w]
  by (auto simp: close_after_error_def same_campaign_refl split: prod.splits sum.splits)

lemma connect_in_profile_tab_same_campaign: "same_campaign w (snd (connect_in_profile_tab w))"
  by (rule same_windows_campaign) (rule connect_in_profile_tab_same_windows)

lemma process_tab_same_campaign: "same_campaign w (snd (process_tab tab w))"
proof -
  obtain r1 w1 where s: "switch_to_window tab w = (r1, w1)" by (cases "switch_to_window tab w")
  obtain r2 w2 where c: "connect_in_profile_tab w1 = (r2, w2)"
    by (cases "connect_in_profile_tab w1")
  obtain r3 w3 where cl: "close_window w2 = (r3, w3)" by (cases "close_window w2")
  have a: "same_campaign w w1" using switch_to_window_same_campaign[of w tab] s by simp
  have b: "same_campaign w1 w2" using connect_in_profile_tab_same_campaign[of w1] c by simp
  have d: "same_campaign w2 w3" using close_window_same_campaign[of w2] cl by simp
  have w2': "same_campaign w w2" using a b by (rule same_campaign_trans)
  have w3': "same_campaign w w3" using w2' d by (rule same_campaign_trans)
  have e: "same_campaign w (snd (close_after_error x v))" if "same_campaign w v" for x v
    using that close_after_error_same_campaign[of v x] by (rule same_campaign_trans)
  show ?thesis
    using s c cl a w2' w3' e[OF a] e[OF w2'] e[OF w3']
    by (cases r1; cases r2; cases r3) (simp_all add: process_tab_def)
qed

lemma drain_tabs_same_campaign: "same_campaign w (snd (drain_tabs tabs w))"
proof (induction tabs arbitrary: w)
  case Nil
  show ?case by (simp add: same_campaign_refl)
next
  case (Cons tab tabs)
  obtain r w' where p: "process_tab tab w = (r, w')" by (cases "process_tab tab w")
  then have one: "same_campaign w w'" using process_tab_same_campaign[of w tab] by simp
  with p Cons.IH[of w'] show ?case
    by (cases r) (auto intro: same_campaign_trans)
qed

lemma return_to_main_same_campaign: "same_campaign w (return_to_main w)"
  using switch_to_window_same_campaign[of w]
  by (auto simp: return_to_main_def same_campaign_refl split: option.splits)

lemma tabs_error_same_campaign: "same_campaign w (snd (tabs_error c e w))"
  using return_to_main_same_campaign[of w]
  by (simp add: tabs_error_def Let_def same_campaign_refl)

lemma process_opened_tabs_same_campaign: "same_campaign w (snd (process_opened_tabs w))"
proof -
  obtain r1 w1 where e: "ensure_main_window w = (r1, w1)" by (cases "ensure_main_window w")
  let ?tabs = "filter (\<lambda>tab. Some tab \<noteq> main_window w1) (window_handles w1)"
  obtain r2 w2 where d: "drain_tabs ?tabs w1 = (r2, w2)" by (cases "drain_tabs ?tabs w1")
  have a: "same_campaign w w1" using ensure_main_window_same_campaign[of w] e by simp
  have "same_campaign w1 w2" using drain_tabs_same_campaign[of w1 ?tabs] d by simp
  with a have b: "same_campaign w w2" by (rule same_campaign_trans)
  have t: "same_campaign w (snd (tabs_error c x v))" if "same_campaign w v" for c x v
    using that tabs_error_same_campaign[of v c x] by (rule same_campaign_trans)
  have s: "same_campaign w (snd (switch_to_window m w2))" for m
    using b switch_to_window_same_campaign[of w2 m] by (rule same_campaign_trans)
  show ?thesis
  proof (cases r1)
    case (Inl x)
    with e t[OF a] show ?thesis
      by (simp add: process_opened_tabs_def Let_def safe_operation_def)
  next
    case r1: (Inr u)
    show ?thesis
    proof (cases r2)
      case (Inl x)
      with e d r1 t[OF b] show ?thesis
        by (simp add: process_opened_tabs_def Let_def safe_operation_def)
    next
      case r2: (Inr u')
      show ?thesis
      proof (cases "main_window w2")
        case None
        with e d r1 r2 t[OF b] show ?thesis
          by (simp add: process_opened_tabs_def Let_def safe_operation_def)
      next
        case (Some m)
        obtain r3 w3 where sw: "switch_to_window m w2 = (r3, w3)"
          by (cases "switch_to_window m w2")
        with s[of m] have c: "same_campaign w w3" by simp
        with e d r1 r2 Some sw t[OF c] show ?thesis
          by (cases r3) (simp_all add: process_opened_tabs_def Let_def safe_operation_def)
      qed
    qed
  qed
qed

subsection \<open>Pagination advances by one page or not at all\<close>

lemma retry_single:
  "f s = (r, s') \<Longrightarrow> \<not> fails r \<Longrightarrow> 0 < N \<Longrightarrow>
   retry N d f s = (case r of Inl e \<Rightarrow> Inl e | Inr v \<Rightarrow> Inr (Some v), s')"
  by (cases r) (simp_all add: retry_def retry_loop_return retry_loop_raise)

lemma navigation_error_cases:
  "navigation_error e w = (r, w') \<Longrightarrow> \<not> fails r \<and> r \<noteq> Inr True \<and> w' = w"
  by (auto simp: navigation_error_def split: if_splits)

lemma dialog_intercepting_cases:
  "dialog_intercepting p w = (r, w') \<Longrightarrow>
   \<not> fails r \<and> ((r = Inr True \<and> w' = advance_page w \<and> next_button_again p \<noteq> None)
               \<or> (r \<noteq> Inr True \<and> w' = w))"
  by (auto simp: dialog_intercepting_def dest!: navigation_error_cases
      split: option.splits sum.splits)

lemma next_page_attempt_cases:
  "next_page_attempt w = (r, w') \<Longrightarrow>
   \<not> fails r \<and> ((r = Inr True \<and> w' = advance_page w \<and> next_button (current_page w) \<noteq> None)
               \<or> (r \<noteq> Inr True \<and> w' = w))"
  by (auto simp: next_page_attempt_def Let_def
      dest!: navigation_error_cases dialog_intercepting_cases
      split: option.splits sum.splits if_splits)

lemma next_button_page: "next_button (current_page w) \<noteq> None \<Longrightarrow> pages w \<noteq> []"
  by (auto simp: current_page_def blank_page_def)

lemma go_to_next_page_cases:
  "go_to_next_page w = (r, w') \<Longrightarrow>
   (r = Inr (Some True) \<and> w' = advance_page w \<and> pages w \<noteq> [])
   \<or> ((r = Inr (Some False) \<or> r = Inl KeyboardInterrupt) \<and> w' = w)"
proof -
  assume g: "go_to_next_page w = (r, w')"
  obtain r0 w0 where a: "next_page_attempt w = (r0, w0)" by (cases "next_page_attempt w")
  note c = next_page_attempt_cases[OF a]
  then have nf: "\<not> fails r0" by simp
  have "go_to_next_page w = (case r0 of Inl e \<Rightarrow> Inl e | Inr v \<Rightarrow> Inr (Some v), w0)"
    unfolding go_to_next_page_def using a nf by (rule retry_single) simp
  with g have r: "r = (case r0 of Inl e \<Rightarrow> Inl e | Inr v \<Rightarrow> Inr (Some v))" and w': "w' = w0"
    by simp_all
  show ?thesis
  proof (cases r0)
    case (Inl e)
    with nf have "e = KeyboardInterrupt" by (simp add: not_Exception)
    with Inl c r w' show ?thesis by simp
  next
    case (Inr v)
    with c r w' next_button_page[of w] show ?thesis by (cases v) auto
  qed
qed

lemma go_to_next_page_pages:
  "go_to_next_page w = (Inr r, w') \<Longrightarrow> \<not> falsy r \<Longrightarrow> length (pages w') < length (pages w)"
  by (drule go_to_next_page_cases) (auto simp: falsy_def advance_page_def)

lemma go_to_next_page_le: "length (pages (snd (go_to_next_page w))) \<le> length (pages w)"
  using go_to_next_page_cases[of w "fst (go_to_next_page w)" "snd (go_to_next_page w)"]
  by (auto simp: advance_page_def)

lemma go_to_next_page_quota:
  "max_connections (snd (go_to_next_page w)) = max_connections w
   \<and> main_window (snd (go_to_next_page w)) = main_window w
   \<and> connection_count (snd (go_to_next_page w)) = connection_count w"
  using go_to_next_page_cases[of w "fst (go_to_next_page w)" "snd (go_to_next_page w)"]
  by (auto simp: advance_page_def)

lemma find_and_process_buttons_le:
  "length (pages (snd (find_and_process_buttons w))) \<le> length (pages w)"
proof -
  have "pages (snd (process_connection_buttons bs w)) = pages w" for bs
    using process_connection_buttons_same_campaign[of w bs] by (simp add: same_campaign_def)
  with go_to_next_page_le[of w] show ?thesis
    by (auto simp: find_and_process_buttons_def split: sum.splits)
qed

lemma drain_if_full_pages: "pages (snd (drain_if_full max_tabs w)) = pages w"
  using process_opened_tabs_same_campaign[of w]
  by (auto simp: drain_if_full_def same_campaign_def split: prod.splits sum.splits)

lemma campaign_step_pages:
  assumes "campaign_step max_tabs w = (Inr u, w')"
  shows "length (pages w') < length (pages w)"
proof -
  obtain r1 w1 where f: "find_and_process_buttons w = (r1, w1)"
    by (cases "find_and_process_buttons w")
  obtain r2 w2 where d: "drain_if_full max_tabs w1 = (r2, w2)"
    by (cases "drain_if_full max_tabs w1")
  obtain r3 w3 where g: "go_to_next_page w2 = (r3, w3)" by (cases "go_to_next_page w2")
  from assms f d g obtain b where r3: "r3 = Inr b" "\<not> falsy b" and w': "w' = w3"
    by (auto simp: campaign_step_def split: sum.splits if_splits)
  have "length (pages w1) \<le> length (pages w)" using find_and_process_buttons_le[of w] f by simp
  moreover have "pages w2 = pages w1" using drain_if_full_pages[of max_tabs w1] d by simp
  moreover have "length (pages w3) < length (pages w2)"
    using g r3 by (auto intro: go_to_next_page_pages)
  ultimately show ?thesis using w' by simp
qed

text \<open>
  The \<open>while True\<close> loop. Every round that does not leave the loop has gone to a next page,
  and the result pages are finitely many, so the loop ends.
\<close>

function campaign_loop :: "int \<Rightarrow> world \<Rightarrow> campaign_exit \<times> world" where
  "campaign_loop max_tabs w =
     (case campaign_step max_tabs w of
        (Inl left, w') \<Rightarrow> (left, w')
      | (Inr u, w') \<Rightarrow> campaign_loop max_tabs w')"
  by pat_completeness auto
termination
  by (relation "measure (\<lambda>(max_tabs, w). length (pages w))") (auto dest: campaign_step_pages[OF sym])

declare campaign_loop.simps [simp del]

text \<open>The dict that \<open>run_connection_campaign\<close> returns.\<close>

record connection_stats =
  successful_connections :: nat
  reported_max_connections :: int

text \<open>
  \<open>run_connection_campaign(search_url, max_tabs, max_connections)\<close>, with the settings
  \<open>MAX_TABS\<close> and \<open>MAX_CONNECTIONS\<close> as parameters; \<open>search_url\<close> stands for the result pages
  the URL serves. Both \<open>except\<close> clauses only log, so the \<open>finally\<close> block runs after every
  way of leaving the loop; an interrupt inside it propagates.
\<close>

definition run_connection_campaign ::
  "int \<Rightarrow> int \<Rightarrow> page list \<Rightarrow> int option \<Rightarrow> int option \<Rightarrow> world
   \<Rightarrow> (exn + connection_stats) \<times> world" where
  "run_connection_campaign MAX_TABS MAX_CONNECTIONS search_url max_tabs max_connections_arg w =
     (let tabs_limit = (case max_tabs of
                          None \<Rightarrow> MAX_TABS
                        | Some t \<Rightarrow> if t = 0 then MAX_TABS else t);
          w0 = w\<lparr>max_connections :=
                   (case max_connections_arg of None \<Rightarrow> MAX_CONNECTIONS | Some c \<Rightarrow> c)\<rparr>
      in case current_window_handle w0 of
           Inl e \<Rightarrow> (Inl e, w0)
         | Inr h \<Rightarrow>
             let w1 = w0\<lparr>main_window := Some h, pages := search_url\<rparr>;
                 w2 = snd (campaign_loop tabs_limit w1)
             in (case process_opened_tabs w2 of
                   (Inl e, w3) \<Rightarrow> (Inl e, w3)
                 | (Inr made, w3) \<Rightarrow>
                     let w4 = return_to_main w3
                     in (Inr \<lparr>successful_connections = connection_count w4,
                              reported_max_connections = max_connections w4\<rparr>, w4)))"

definition fresh_session :: world where
  "fresh_session =
     \<lparr>connection_count = 0, max_connections = 0, main_window = None,
      window_handles = [0], current_window = 0, tab_views = (\<lambda>h. []),
      focus_follows_open = False, pages = []\<rparr>"

definition follow_target :: button where
  "follow_target =
     \<lparr>button_text = Inr ''Follow'', button_click = None, request_dialog = no_dialog,
      profile_link = Inr [good_view]\<rparr>"

definition connect_target :: button where
  "connect_target =
     \<lparr>button_text = Inr ''Connect'', button_click = None, request_dialog = send_dialog,
      profile_link = Inl NoSuchElementException\<rparr>"

definition results_page :: "button list \<Rightarrow> element option \<Rightarrow> page" where
  "results_page buttons next_el =
     \<lparr>first_search = Inr buttons, second_search = Inr buttons, next_button = next_el,
      got_it_button = None, next_button_again = None\<rparr>"

lemmas run_defs =
  run_connection_campaign_def campaign_loop.simps campaign_step_def find_and_process_buttons_def
  find_connection_buttons_def no_buttons_def found_buttons_def falsy_def drain_if_full_def
  go_to_next_page_def next_page_attempt_def dialog_intercepting_def navigation_error_def
  advance_page_def current_page_def blank_page_def process_connection_buttons_def
  process_buttons_loop.simps process_button_def skip_on_exception_def
  connection_limit_reached_def open_profile_in_new_tab_def current_window_handle_def
  open_window_def new_handle_def campaign_defs

text \<open>
  Opening a tab in a browser that gives the focus to the new window: the tab is opened and
  the focus is back on the window it was on.
\<close>

theorem open_profile_keeps_focus_witness:
  "fst (open_profile_in_new_tab follow_target (fresh_session\<lparr>focus_follows_open := True\<rparr>))
     = Inr True
 \<and> window_handles
       (snd (open_profile_in_new_tab follow_target (fresh_session\<lparr>focus_follows_open := True\<rparr>)))
     = [0, 1]
 \<and> current_window (open_window [good_view] (fresh_session\<lparr>focus_follows_open := True\<rparr>)) = 1
 \<and> current_window
       (snd (open_profile_in_new_tab follow_target (fresh_session\<lparr>focus_follows_open := True\<rparr>)))
     = 0"
  using open_profile_keeps_focus[of follow_target "fresh_session\<lparr>focus_follows_open := True\<rparr>"]
  by (simp add: fresh_session_def follow_target_def open_profile_in_new_tab_def
      current_window_handle_def open_window_def new_handle_def switch_to_window_def)

section \<open>The job campaign: features/jobs.py\<close>

text \<open>
  A job card: what clicking it does, and what the application flow after the click does
  (\<open>None\<close>: every step up to the success message went through; \<open>Some e\<close>: a step raised
  \<open>e\<close>). A page of job results: the listings found on it, and its Next button (\<open>None\<close>: there
  is none; \<open>Some c\<close>: clicking it does \<open>c\<close>).
\<close>

record job_card =
  card_click :: "exn option"
  apply_flow :: "exn option"

record job_page =
  listings :: "exn + job_card list"
  job_next_button :: "exn option option"

definition blank_job_page :: job_page where
  "blank_job_page = \<lparr>listings = Inr [], job_next_button = None\<rparr>"

text \<open>The fields of \<open>JobApplicationManager\<close> and the result pages from the current one on.\<close>

record job_world =
  application_count :: nat
  viewed_jobs_count :: nat
  max_applications :: int
  job_pages :: "job_page list"

definition current_job_page :: "job_world \<Rightarrow> job_page" where
  "current_job_page w = (case job_pages w of [] \<Rightarrow> blank_job_page | p # ps \<Rightarrow> p)"

text \<open>The quota check: \<open>self.max_applications > 0 and self.application_count >= self.max_applications\<close>.\<close>

definition application_limit_reached :: "job_world \<Rightarrow> bool" where
  "application_limit_reached w =
     (max_applications w > 0 \<and> int (application_count w) \<ge> max_applications w)"

text \<open>\<open>find_job_listings\<close>: an \<open>Exception\<close> of the search gives the empty list.\<close>

definition find_job_listings :: "job_world \<Rightarrow> exn + job_card list option" where
  "find_job_listings w =
     safe_result
       (case listings (current_job_page w) of
          Inl e \<Rightarrow> if is_Exception e then Inr [] else Inl e
        | Inr job_cards \<Rightarrow> Inr job_cards)"

text \<open>
  The clause \<open>except Exception\<close> that logs the error and returns \<open>False\<close>; it ends
  \<open>apply_to_job\<close> and the \<open>go_to_next_page\<close> of the job campaign.
\<close>

definition except_return_false :: "exn \<Rightarrow> exn + bool" where
  "except_return_false e = (if is_Exception e then Inr False else Inl e)"

text \<open>One attempt of \<open>apply_to_job(job_card)\<close>.\<close>

definition apply_attempt :: "job_card \<Rightarrow> (job_world, bool) operation" where
  "apply_attempt job_card w =
     (case card_click job_card of
        Some e \<Rightarrow> (except_return_false e, w)
      | None \<Rightarrow>
          let w1 = w\<lparr>viewed_jobs_count := viewed_jobs_count w + 1\<rparr> in
          (case apply_flow job_card of
             Some e \<Rightarrow> (except_return_false e, w1)
           | None \<Rightarrow> (Inr True, w1\<lparr>application_count := application_count w1 + 1\<rparr>)))"

definition apply_to_job :: "job_card \<Rightarrow> job_world \<Rightarrow> (exn + bool option) \<times> job_world" where
  "apply_to_job job_card w = retry 2 1 (apply_attempt job_card) w"

text \<open>
  The \<open>for job_card in job_cards\<close> loop: it is left when the quota is reached, and an
  \<open>Exception\<close> of an application is logged.
\<close>

fun apply_to_cards :: "job_card list \<Rightarrow> job_world \<Rightarrow> (exn + unit) \<times> job_world" where
  "apply_to_cards [] w = (Inr (), w)"
| "apply_to_cards (job_card # job_cards) w =
     (if application_limit_reached w then (Inr (), w)
      else (case apply_to_job job_card w of
              (Inl e, w') \<Rightarrow> if is_Exception e then apply_to_cards job_cards w' else (Inl e, w')
            | (Inr r, w') \<Rightarrow> apply_to_cards job_cards w'))"

definition job_next_page_attempt :: "(job_world, bool) operation" where
  "job_next_page_attempt w =
     (case job_next_button (current_job_page w) of
        None \<Rightarrow> (Inr False, w)
      | Some click \<Rightarrow>
          (case click of
             Some e \<Rightarrow> (except_return_false e, w)
           | None \<Rightarrow> (Inr True, w\<lparr>job_pages := tl (job_pages w)\<rparr>)))"

definition job_go_to_next_page :: "job_world \<Rightarrow> (exn + bool option) \<times> job_world" where
  "job_go_to_next_page w = retry 2 1 job_next_page_attempt w"

text \<open>
  How the \<open>while True\<close> loop of \<open>run_job_campaign\<close> is left: by the quota check at its head,
  by a \<open>break\<close> after pagination reported no further page, or by an exception or interrupt.
\<close>

datatype job_exit = LimitReached | OutOfPages | JobRaised exn

definition job_paginate :: "job_world \<Rightarrow> (job_exit + unit) \<times> job_world" where
  "job_paginate w =
     (case job_go_to_next_page w of
        (Inl e, w') \<Rightarrow> (Inl (JobRaised e), w')
      | (Inr r, w') \<Rightarrow> if falsy r then (Inl OutOfPages, w') else (Inr (), w'))"

definition found_cards :: "job_card list option \<Rightarrow> job_card list" where
  "found_cards job_cards = (case job_cards of None \<Rightarrow> [] | Some cs \<Rightarrow> cs)"

definition job_campaign_step :: "job_world \<Rightarrow> (job_exit + unit) \<times> job_world" where
  "job_campaign_step w =
     (if application_limit_reached w then (Inl LimitReached, w)
      else
        (case find_job_listings w of
           Inl e \<Rightarrow> (Inl (JobRaised e), w)
         | Inr job_cards \<Rightarrow>
             if job_cards = None \<or> job_cards = Some [] then job_paginate w
             else
               (case apply_to_cards (found_cards job_cards) w of
                  (Inl e, w1) \<Rightarrow> (Inl (JobRaised e), w1)
                | (Inr u, w1) \<Rightarrow> job_paginate w1)))"

lemma job_next_page_attempt_cases:
  "job_next_page_attempt w = (r, w') \<Longrightarrow>
   \<not> fails r \<and> ((r = Inr True \<and> w' = w\<lparr>job_pages := tl (job_pages w)\<rparr> \<and> job_pages w \<noteq> [])
               \<or> (r \<noteq> Inr True \<and> w' = w))"
  by (auto simp: job_next_page_attempt_def except_return_false_def current_job_page_def
      blank_job_page_def split: option.splits if_splits list.splits)

lemma job_go_to_next_page_cases:
  "job_go_to_next_page w = (r, w') \<Longrightarrow>
   (r = Inr (Some True) \<and> w' = w\<lparr>job_pages := tl (job_pages w)\<rparr> \<and> job_pages w \<noteq> [])
   \<or> ((r = Inr (Some False) \<or> r = Inl KeyboardInterrupt) \<and> w' = w)"
proof -
  assume g: "job_go_to_next_page w = (r, w')"
  obtain r0 w0 where a: "job_next_page_attempt w = (r0, w0)"
    by (cases "job_next_page_attempt w")
  note c = job_next_page_attempt_cases[OF a]
  then have nf: "\<not> fails r0" by simp
  have "job_go_to_next_page w = (case r0 of Inl e \<Rightarrow> Inl e | Inr v \<Rightarrow> Inr (Some v), w0)"
    unfolding job_go_to_next_page_def using a nf by (rule retry_single) simp
  with g have r: "r = (case r0 of Inl e \<Rightarrow> Inl e | Inr v \<Rightarrow> Inr (Some v))" and w': "w' = w0"
    by simp_all
  show ?thesis
  proof (cases r0)
    case (Inl e)
    with nf have "e = KeyboardInterrupt" by (simp add: not_Exception)
    with Inl c r w' show ?thesis by simp
  next
    case (Inr v)
    with c r w' show ?thesis by (cases v) auto
  qed
qed

text \<open>\<open>same_jobs w w'\<close>: from \<open>w\<close> to \<open>w'\<close> the quota and the result pages are unchanged.\<close>

definition same_jobs :: "job_world \<Rightarrow> job_world \<Rightarrow> bool" where
  "same_jobs w w' = (max_applications w' = max_applications w \<and> job_pages w' = job_pages w)"

lemma apply_to_job_same_jobs: "same_jobs w (snd (apply_to_job job_card w))"
  unfolding apply_to_job_def
  by (rule retry_preserves[where R = same_jobs])
    (auto simp: same_jobs_def apply_attempt_def Let_def split: option.splits)

lemma apply_to_cards_same_jobs: "same_jobs w (snd (apply_to_cards job_cards w))"
proof (induction job_cards arbitrary: w)
  case Nil
  show ?case by (simp add: same_jobs_def)
next
  case (Cons c cs)
  obtain r w' where a: "apply_to_job c w = (r, w')" by (cases "apply_to_job c w")
  then have "same_jobs w w'" using apply_to_job_same_jobs[of w c] by simp
  with a Cons.IH[of w'] show ?case
    by (cases r) (auto simp: same_jobs_def)
qed

lemma job_paginate_continue:
  "job_paginate w = (Inr u, w') \<Longrightarrow>
   length (job_pages w') < length (job_pages w) \<and> max_applications w' = max_applications w"
  by (auto simp: job_paginate_def falsy_def split: prod.splits sum.splits if_splits
      dest!: job_go_to_next_page_cases)

lemma job_campaign_step_continue:
  assumes "job_campaign_step w = (Inr u, w')"
  shows "length (job_pages w') < length (job_pages w) \<and> max_applications w' = max_applications w"
proof -
  have "\<exists>w1. job_paginate w1 = (Inr u, w') \<and> same_jobs w w1"
  proof (cases "\<exists>cs. find_job_listings w = Inr (Some cs) \<and> cs \<noteq> []")
    case True
    then obtain cs where cs: "find_job_listings w = Inr (Some cs)" "cs \<noteq> []" by blast
    obtain r1 w1 where a: "apply_to_cards cs w = (r1, w1)" by (cases "apply_to_cards cs w")
    then have "same_jobs w w1" using apply_to_cards_same_jobs[of w cs] by simp
    moreover have "job_paginate w1 = (Inr u, w')"
      using assms cs a
      by (cases r1) (auto simp: job_campaign_step_def found_cards_def split: if_splits)
    ultimately show ?thesis by blast
  next
    case False
    with assms have "job_paginate w = (Inr u, w')"
      by (auto simp: job_campaign_step_def split: if_splits sum.splits option.splits)
    then show ?thesis by (auto simp: same_jobs_def)
  qed
  then obtain w1 where "job_paginate w1 = (Inr u, w')" "same_jobs w w1" by blast
  with job_paginate_continue[of w1 u w'] show ?thesis by (simp add: same_jobs_def)
qed

function job_campaign_loop :: "job_world \<Rightarrow> job_exit \<times> job_world" where
  "job_campaign_loop w =
     (case job_campaign_step w of
        (Inl left, w') \<Rightarrow> (left, w')
      | (Inr u, w') \<Rightarrow> job_campaign_loop w')"
  by pat_completeness auto
termination
  by (relation "measure (\<lambda>w. length (job_pages w))")
    (auto dest: job_campaign_step_continue[OF sym])

declare job_campaign_loop.simps [simp del]

text \<open>The dict that \<open>run_job_campaign\<close> returns.\<close>

record job_stats =
  successful_applications :: nat
  viewed_jobs :: nat
  reported_max_applications :: int

text \<open>
  \<open>run_job_campaign\<close>, with the setting \<open>MAX_APPLICATIONS\<close> as a parameter. \<open>start\<close> is the
  list of result pages that the search URL, or else the search for keywords and location,
  leads to, and \<open>None\<close> when the caller gave neither. Both \<open>except\<close> clauses only log.
\<close>

definition run_job_campaign ::
  "int \<Rightarrow> job_page list option \<Rightarrow> int option \<Rightarrow> job_world \<Rightarrow> job_stats \<times> job_world" where
  "run_job_campaign MAX_APPLICATIONS start max_applications_arg w =
     (let w0 = w\<lparr>max_applications :=
                   (case max_applications_arg of None \<Rightarrow> MAX_APPLICATIONS | Some a \<Rightarrow> a)\<rparr>
      in case start of
           None \<Rightarrow>
             (\<lparr>successful_applications = 0, viewed_jobs = 0,
               reported_max_applications = max_applications w0\<rparr>, w0)
         | Some job_results \<Rightarrow>
             let w1 = snd (job_campaign_loop (w0\<lparr>job_pages := job_results\<rparr>))
             in (\<lparr>successful_applications = application_count w1,
                  viewed_jobs = viewed_jobs_count w1,
                  reported_max_applications = max_applications w1\<rparr>, w1))"

subsection \<open>An unlimited quota never stops a campaign\<close>

lemma process_button_raise: "process_button b w = (Inl e, w') \<Longrightarrow> \<not> is_Exception e"
  by (auto simp: process_button_def skip_on_exception_def
      split: sum.splits option.splits prod.splits if_splits)

lemma process_buttons_loop_unlimited:
  "max_connections w = 0 \<Longrightarrow> process_buttons_loop bs w = (r, w') \<Longrightarrow>
   r = Inr True \<or> (\<exists>e. r = Inl e \<and> \<not> is_Exception e)"
proof (induction bs arbitrary: w)
  case Nil
  then show ?case by simp
next
  case (Cons b bs)
  obtain r1 w1 where p: "process_button b w = (r1, w1)" by (cases "process_button b w")
  have q: "max_connections w1 = 0"
    using process_button_same_campaign[of w b] p Cons.prems(1) by (simp add: same_campaign_def)
  have open_quota: "\<not> connection_limit_reached w"
    using Cons.prems(1) by (simp add: connection_limit_reached_def)
  show ?case
  proof (cases r1)
    case (Inl e)
    with p open_quota Cons.prems(2) process_button_raise[of b w e w1] show ?thesis by auto
  next
    case (Inr u)
    with p open_quota Cons.prems(2) have "process_buttons_loop bs w1 = (r, w')" by simp
    with q show ?thesis by (rule Cons.IH)
  qed
qed

lemma process_connection_buttons_unlimited:
  assumes "max_connections w = 0" "main_window w \<noteq> None"
    and "process_connection_buttons bs w = (Inr r, w')"
  shows "r = Some True"
proof (cases "bs = []")
  case True
  with assms(3) show ?thesis
    by (auto simp: process_connection_buttons_def safe_operation_def safe_result_def)
next
  case False
  from assms(2) have e: "ensure_main_window w = (Inr (), w)"
    by (auto simp: ensure_main_window_def)
  obtain r1 w1 where l: "process_buttons_loop bs w = (r1, w1)"
    by (cases "process_buttons_loop bs w")
  from process_buttons_loop_unlimited[OF assms(1) l]
  have "r1 = Inr True \<or> (\<exists>e. r1 = Inl e \<and> \<not> is_Exception e)" .
  with assms(3) False e l show ?thesis
    by (auto simp: process_connection_buttons_def safe_operation_def safe_result_def)
qed

lemma find_and_process_buttons_unlimited:
  assumes "max_connections w = 0" "main_window w \<noteq> None"
    and "find_and_process_buttons w = (Inr r, w')" "falsy r"
  shows "go_to_next_page w = (Inr (Some False), w) \<and> w' = w"
proof -
  have not_processing: "process_connection_buttons bs w \<noteq> (Inr r, w')" for bs
    using process_connection_buttons_unlimited[OF assms(1,2), of bs r w'] assms(4)
    by (auto simp: falsy_def)
  with assms(3) have g: "go_to_next_page w = (Inr r, w')"
    by (auto simp: find_and_process_buttons_def split: sum.splits if_splits)
  from go_to_next_page_cases[OF g] assms(4) show ?thesis
    using g by (auto simp: falsy_def)
qed

lemma campaign_step_unlimited:
  assumes "max_connections w = 0" "main_window w \<noteq> None"
    and "campaign_step max_tabs w = (x, w')"
  shows "(\<exists>e. x = Inl (Raised e))
       \<or> ((x = Inl NoMoreButtons \<or> x = Inl NoMorePages)
            \<and> go_to_next_page w' = (Inr (Some False), w'))
       \<or> (x = Inr () \<and> max_connections w' = 0 \<and> main_window w' \<noteq> None)"
proof -
  obtain r1 w1 where f: "find_and_process_buttons w = (r1, w1)"
    by (cases "find_and_process_buttons w")
  show ?thesis
  proof (cases r1)
    case (Inl e)
    with f assms(3) show ?thesis by (auto simp: campaign_step_def)
  next
    case (Inr r)
    show ?thesis
    proof (cases "falsy r")
      case True
      with find_and_process_buttons_unlimited[OF assms(1,2), of r w1] f Inr
      have "go_to_next_page w = (Inr (Some False), w)" "w1 = w" by simp_all
      moreover from True f Inr assms(3) have "x = Inl NoMoreButtons" "w' = w1"
        by (auto simp: campaign_step_def)
      ultimately show ?thesis by simp
    next
      case False
      have k1: "max_connections w1 = 0 \<and> main_window w1 \<noteq> None"
      proof -
        have a: "max_connections (snd (process_connection_buttons bs w)) = 0
            \<and> main_window (snd (process_connection_buttons bs w)) \<noteq> None" for bs
          using process_connection_buttons_same_campaign[of w bs] assms(1,2)
          by (auto simp: same_campaign_def)
        have b: "max_connections (snd (go_to_next_page w)) = 0
            \<and> main_window (snd (go_to_next_page w)) \<noteq> None"
          using go_to_next_page_quota[of w] assms(1,2) by simp
        have "max_connections (snd (find_and_process_buttons w)) = 0
            \<and> main_window (snd (find_and_process_buttons w)) \<noteq> None"
          using a b assms(1,2)
          by (simp add: find_and_process_buttons_def split: sum.splits)
        with f show ?thesis by simp
      qed
      obtain r2 w2 where d: "drain_if_full max_tabs w1 = (r2, w2)"
        by (cases "drain_if_full max_tabs w1")
      have k2: "max_connections w2 = 0 \<and> main_window w2 \<noteq> None"
        using process_opened_tabs_same_campaign[of w1] d k1
        by (auto simp: drain_if_full_def same_campaign_def split: if_splits prod.splits sum.splits)
      obtain r3 w3 where g: "go_to_next_page w2 = (r3, w3)" by (cases "go_to_next_page w2")
      have k3: "max_connections w3 = 0 \<and> main_window w3 \<noteq> None"
        using go_to_next_page_quota[of w2] g k2 by simp
      from go_to_next_page_cases[OF g]
      have c: "(r3 = Inr (Some True) \<and> w3 = advance_page w2)
          \<or> ((r3 = Inr (Some False) \<or> r3 = Inl KeyboardInterrupt) \<and> w3 = w2)" by blast
      show ?thesis
      proof (cases r2)
        case (Inl e)
        with False f Inr d assms(3) show ?thesis by (auto simp: campaign_step_def)
      next
        case r2: (Inr u)
        from c show ?thesis
        proof (elim disjE conjE)
          assume "r3 = Inr (Some True)" "w3 = advance_page w2"
          with False f Inr d r2 g assms(3) k3 show ?thesis
            by (auto simp: campaign_step_def falsy_def)
        next
          assume "r3 = Inr (Some False)" "w3 = w2"
          with False f Inr d r2 g assms(3) show ?thesis
            by (auto simp: campaign_step_def falsy_def)
        next
          assume "r3 = Inl KeyboardInterrupt" "w3 = w2"
          with False f Inr d r2 g assms(3) show ?thesis
            by (auto simp: campaign_step_def falsy_def)
        qed
      qed
    qed
  qed
qed

lemma campaign_loop_unlimited:
  "max_connections w = 0 \<Longrightarrow> main_window w \<noteq> None \<Longrightarrow> campaign_loop max_tabs w = (left, w') \<Longrightarrow>
   (\<exists>e. left = Raised e) \<or> go_to_next_page w' = (Inr (Some False), w')"
proof (induction max_tabs w rule: campaign_loop.induct)
  case (1 max_tabs w)
  obtain x w1 where s: "campaign_step max_tabs w = (x, w1)" by (cases "campaign_step max_tabs w")
  note c = campaign_step_unlimited[OF "1.prems"(1,2) s]
  show ?case
  proof (cases x)
    case (Inl l)
    with s "1.prems"(3) have "left = l" "w' = w1" by (simp_all add: campaign_loop.simps)
    with c Inl show ?thesis by auto
  next
    case (Inr u)
    with s "1.prems"(3) have "campaign_loop max_tabs w1 = (left, w')"
      by (simp add: campaign_loop.simps)
    moreover from c Inr have "max_connections w1 = 0" "main_window w1 \<noteq> None" by auto
    ultimately show ?thesis using "1.IH"[OF s[symmetric] Inr] by blast
  qed
qed

lemma job_campaign_loop_unlimited:
  "max_applications w = 0 \<Longrightarrow> job_campaign_loop w = (left, w') \<Longrightarrow>
   left \<noteq> LimitReached \<and> (left = OutOfPages \<longrightarrow> job_go_to_next_page w' = (Inr (Some False), w'))"
proof (induction w rule: job_campaign_loop.induct)
  case (1 w)
  obtain x w1 where s: "job_campaign_step w = (x, w1)" by (cases "job_campaign_step w")
  have open_quota: "\<not> application_limit_reached w"
    using "1.prems"(1) by (simp add: application_limit_reached_def)
  have paginate: "left \<noteq> LimitReached
      \<and> (left = OutOfPages \<longrightarrow> job_go_to_next_page w' = (Inr (Some False), w'))"
    if "job_paginate v = (Inl left, w')" for v
  proof -
    obtain r2 v2 where g: "job_go_to_next_page v = (r2, v2)" by (cases "job_go_to_next_page v")
    from job_go_to_next_page_cases[OF g] g that show ?thesis
      by (auto simp: job_paginate_def falsy_def split: sum.splits if_splits)
  qed
  show ?case
  proof (cases x)
    case (Inl l)
    with s "1.prems"(2) have lw: "left = l" "w' = w1" by (simp_all add: job_campaign_loop.simps)
    have "(\<exists>e. l = JobRaised e) \<or> (\<exists>v. job_paginate v = (Inl l, w1))"
      using s Inl open_quota
      by (auto simp: job_campaign_step_def split: sum.splits if_splits prod.splits)
    with lw paginate show ?thesis by auto
  next
    case (Inr u)
    with s "1.prems"(2) have "job_campaign_loop w1 = (left, w')"
      by (simp add: job_campaign_loop.simps)
    moreover have "max_applications w1 = 0"
      using job_campaign_step_continue[of w u w1] s Inr "1.prems"(1) by simp
    ultimately show ?thesis using "1.IH"[OF s[symmetric] Inr] by blast
  qed
qed

definition unlimited_session :: world where
  "unlimited_session =
     fresh_session\<lparr>connection_count := 1000, main_window := Some 0,
       pages := [results_page [connect_target] None]\<rparr>"

definition apply_card :: job_card where
  "apply_card = \<lparr>card_click = None, apply_flow = None\<rparr>"

definition unlimited_jobs :: job_world where
  "unlimited_jobs =
     \<lparr>application_count = 1000, viewed_jobs_count = 1000, max_applications = 0,
      job_pages = [\<lparr>listings = Inr [apply_card, apply_card], job_next_button = None\<rparr>]\<rparr>"

lemmas job_defs =
  job_campaign_loop.simps job_campaign_step_def job_paginate_def job_go_to_next_page_def
  job_next_page_attempt_def find_job_listings_def current_job_page_def blank_job_page_def
  found_cards_def apply_to_job_def apply_attempt_def except_return_false_def
  application_limit_reached_def falsy_def retry_def retry_loop.simps time_sleep_def
  safe_result_def Let_def

text \<open>
  Claim C6. With the quota limit 0 the quota check is false whatever the count, in both
  campaigns. The loop of the connection campaign, started with a recorded main window as
  \<open>run_connection_campaign\<close> starts it, is then left only by an exception or interrupt, or
  in a state where page advancement reports that there is no further page. The loop of
  the job campaign is never left by its quota check, and when it is left for lack of pages,
  page advancement reports that there is no further page.
\<close>

theorem unlimited_quota_exhausts_pages:
  "(max_connections w = 0 \<longrightarrow> \<not> connection_limit_reached w)
 \<and> (max_applications jw = 0 \<longrightarrow> \<not> application_limit_reached jw)
 \<and> (max_connections w = 0 \<and> main_window w \<noteq> None \<longrightarrow>
      (\<exists>e. fst (campaign_loop max_tabs w) = Raised e)
      \<or> go_to_next_page (snd (campaign_loop max_tabs w))
          = (Inr (Some False), snd (campaign_loop max_tabs w)))
 \<and> (max_applications jw = 0 \<longrightarrow>
      fst (job_campaign_loop jw) \<noteq> LimitReached
      \<and> (fst (job_campaign_loop jw) = OutOfPages \<longrightarrow>
           job_go_to_next_page (snd (job_campaign_loop jw))
             = (Inr (Some False), snd (job_campaign_loop jw))))"
proof (intro conjI impI)
  assume "max_connections w = 0"
  then show "\<not> connection_limit_reached w" by (simp add: connection_limit_reached_def)
next
  assume "max_applications jw = 0"
  then show "\<not> application_limit_reached jw" by (simp add: application_limit_reached_def)
next
  assume a: "max_connections w = 0 \<and> main_window w \<noteq> None"
  obtain left w' where l: "campaign_loop max_tabs w = (left, w')"
    by (cases "campaign_loop max_tabs w")
  from a campaign_loop_unlimited[OF _ _ l] l
  show "(\<exists>e. fst (campaign_loop max_tabs w) = Raised e)
      \<or> go_to_next_page (snd (campaign_loop max_tabs w))
          = (Inr (Some False), snd (campaign_loop max_tabs w))" by simp
next
  assume a: "max_applications jw = 0"
  obtain left jw' where l: "job_campaign_loop jw = (left, jw')" by (cases "job_campaign_loop jw")
  from job_campaign_loop_unlimited[OF a l] l
  show "fst (job_campaign_loop jw) \<noteq> LimitReached" by simp
next
  assume a: "max_applications jw = 0" and o: "fst (job_campaign_loop jw) = OutOfPages"
  obtain left jw' where l: "job_campaign_loop jw = (left, jw')" by (cases "job_campaign_loop jw")
  from job_campaign_loop_unlimited[OF a l] l o
  show "job_go_to_next_page (snd (job_campaign_loop jw))
      = (Inr (Some False), snd (job_campaign_loop jw))" by simp
qed

theorem unlimited_quota_exhausts_pages_witness:
  "\<not> connection_limit_reached unlimited_session
 \<and> \<not> application_limit_reached unlimited_jobs
 \<and> fst (campaign_loop 3 unlimited_session) = NoMorePages
 \<and> connection_count (snd (campaign_loop 3 unlimited_session)) = 1001
 \<and> go_to_next_page (snd (campaign_loop 3 unlimited_session))
     = (Inr (Some False), snd (campaign_loop 3 unlimited_session))
 \<and> fst (job_campaign_loop unlimited_jobs) = OutOfPages
 \<and> application_count (snd (job_campaign_loop unlimited_jobs)) = 1002
 \<and> job_go_to_next_page (snd (job_campaign_loop unlimited_jobs))
     = (Inr (Some False), snd (job_campaign_loop unlimited_jobs))"
proof -
  have q: "max_connections unlimited_session = 0" "main_window unlimited_session \<noteq> None"
    by (simp_all add: unlimited_session_def fresh_session_def)
  have jq: "max_applications unlimited_jobs = 0" by (simp add: unlimited_jobs_def)
  have left: "fst (campaign_loop 3 unlimited_session) = NoMorePages"
    by (simp add: unlimited_session_def fresh_session_def connect_target_def results_page_def
        send_dialog_def run_defs)
  have count: "connection_count (snd (campaign_loop 3 unlimited_session)) = 1001"
    by (simp add: unlimited_session_def fresh_session_def connect_target_def results_page_def
        send_dialog_def run_defs)
  have jleft: "fst (job_campaign_loop unlimited_jobs) = OutOfPages"
    by (simp add: unlimited_jobs_def apply_card_def job_defs)
  have jcount: "application_count (snd (job_campaign_loop unlimited_jobs)) = 1002"
    by (simp add: unlimited_jobs_def apply_card_def job_defs)
  note t = unlimited_quota_exhausts_pages[of unlimited_session unlimited_jobs 3]
  from t q have "\<not> connection_limit_reached unlimited_session" by blast
  moreover from t jq have "\<not> application_limit_reached unlimited_jobs" by blast
  moreover from t q left have "go_to_next_page (snd (campaign_loop 3 unlimited_session))
     = (Inr (Some False), snd (campaign_loop 3 unlimited_session))" by auto
  moreover from t jq jleft have "job_go_to_next_page (snd (job_campaign_loop unlimited_jobs))
     = (Inr (Some False), snd (job_campaign_loop unlimited_jobs))" by blast
  ultimately show ?thesis using left count jleft jcount by simp
qed

subsection \<open>The quota on the two paths that send requests\<close>

text \<open>
  The inline path checks the quota before every button, so it never takes the count past a
  positive limit.
\<close>

lemma process_button_count:
  "connection_count (snd (process_button b w)) \<le> connection_count w + 1"
proof -
  have "connection_count (snd (open_profile_in_new_tab b w)) = connection_count w"
    by (auto simp: open_profile_in_new_tab_def current_window_handle_def switch_to_window_def
        open_window_def Let_def split: sum.splits)
  then show ?thesis
    by (auto simp: process_button_def skip_on_exception_def
        split: sum.splits option.splits prod.splits)
qed

lemma inline_path_keeps_quota:
  "0 < max_connections w \<Longrightarrow> int (connection_count w) \<le> max_connections w \<Longrightarrow>
   int (connection_count (snd (process_buttons_loop bs w))) \<le> max_connections w"
proof (induction bs arbitrary: w)
  case Nil
  then show ?case by simp
next
  case (Cons b bs)
  show ?case
  proof (cases "connection_limit_reached w")
    case True
    with Cons.prems show ?thesis by simp
  next
    case False
    with Cons.prems have below: "int (connection_count w) < max_connections w"
      by (simp add: connection_limit_reached_def)
    obtain r w1 where p: "process_button b w = (r, w1)" by (cases "process_button b w")
    have same: "max_connections w1 = max_connections w"
      using process_button_same_campaign[of w b] p by (simp add: same_campaign_def)
    have "connection_count w1 \<le> connection_count w + 1"
      using process_button_count[of b w] p by simp
    with below same have le: "int (connection_count w1) \<le> max_connections w1" by simp
    show ?thesis
    proof (cases r)
      case (Inl e)
      with False p le same show ?thesis by simp
    next
      case (Inr u)
      with False p Cons.IH[of w1] le same Cons.prems(1) show ?thesis by simp
    qed
  qed
qed

text \<open>
  Claim C1 fails on the tab path. With the limit 1 and one result page showing two Follow
  buttons, both profiles are opened in tabs; the final drain connects with both, since
  \<open>connect_in_profile_tab\<close> and \<open>process_opened_tabs\<close> never look at the limit, and the
  campaign reports 2 requests against a limit of 1.
\<close>

theorem tab_path_exceeds_quota:
  "fst (run_connection_campaign 3 60 [results_page [follow_target, follow_target] None]
          None (Some 1) fresh_session)
     = Inr \<lparr>successful_connections = 2, reported_max_connections = 1\<rparr>"
  by (simp add: fresh_session_def follow_target_def results_page_def good_view_def send_dialog_def
      no_dialog_def run_defs)

text \<open>
  Claim C9 fails after an empty page. The first of three result pages shows no button, the
  second shows a Connect button that would succeed. \<open>find_and_process_buttons\<close> advances to
  the second page and returns \<open>True\<close>, and the loop advances again at once: the second page
  is never searched and the unlimited campaign ends with no request sent. Started on the
  second page, the same campaign sends one.
\<close>

theorem empty_page_skips_next_page:
  "fst (run_connection_campaign 3 60
          [results_page [] (Some []), results_page [connect_target] (Some []), results_page [] None]
          None (Some 0) fresh_session)
     = Inr \<lparr>successful_connections = 0, reported_max_connections = 0\<rparr>
 \<and> fst (run_connection_campaign 3 60
          [results_page [connect_target] (Some []), results_page [] None]
          None (Some 0) fresh_session)
     = Inr \<lparr>successful_connections = 1, reported_max_connections = 0\<rparr>"
  by (simp add: fresh_session_def connect_target_def results_page_def good_view_def send_dialog_def
      no_dialog_def run_defs)

end
